theory Spec2Isabelle
  imports Complex_Main
begin

section \<open>C integers\<close>

text \<open>
  The program's \<^verbatim>\<open>int\<close> variables are 32-bit two's complement values. They are modelled
  as \<^typ>\<open>int\<close> together with the range predicate \<open>is_int\<close>; where a product can leave the
  range the wrap-around is written out (\<open>wrap_int\<close>), which is the behaviour the program's
  own overflow test \<^verbatim>\<open>total_length/n != m\<close> relies on. Division and remainder truncate
  towards zero, as in C.
\<close>

definition INT_MAX :: int where
  "INT_MAX = 2147483647"

definition INT_MIN :: int where
  "INT_MIN = - 2147483648"

definition is_int :: "int \<Rightarrow> bool" where
  "is_int x \<longleftrightarrow> INT_MIN \<le> x \<and> x \<le> INT_MAX"

definition wrap_int :: "int \<Rightarrow> int" where
  "wrap_int x = (x + 2147483648) mod 4294967296 - 2147483648"

definition c_mul :: "int \<Rightarrow> int \<Rightarrow> int" where
  "c_mul a b = wrap_int (a * b)"

definition c_div :: "int \<Rightarrow> int \<Rightarrow> int" where
  "c_div a b = sgn a * sgn b * (\<bar>a\<bar> div \<bar>b\<bar>)"

definition c_rem :: "int \<Rightarrow> int \<Rightarrow> int" where
  "c_rem a b = a - b * c_div a b"

text \<open>
  Modelled from the spec: the macros \<^verbatim>\<open>MAX\<close> and \<^verbatim>\<open>MIN\<close> come from the header
  \<^verbatim>\<open>par-res-kern_general.h\<close>, which is not among the sources. The spec reads them as
  maximum and minimum ("max(iterations-1, 1)", "running minimum, running maximum"); they are
  written here as the usual conditional expressions.
\<close>

definition MAX_macro :: "'a::linorder \<Rightarrow> 'a \<Rightarrow> 'a" where
  "MAX_macro x y = (if x > y then x else y)"

definition MIN_macro :: "'a::linorder \<Rightarrow> 'a \<Rightarrow> 'a" where
  "MIN_macro x y = (if x < y then x else y)"

section \<open>Command line checks\<close>

text \<open>
  The build constants: \<^verbatim>\<open>MEMWORDS\<close> (1000000 unless the build overrides it),
  \<^verbatim>\<open>MAX_THREADS\<close> (declared in the missing header \<^verbatim>\<open>par-res-kern_omp.h\<close>, hence a
  parameter) and whether \<^verbatim>\<open>VERBOSE\<close> is defined.
\<close>

record build =
  MEMWORDS :: int
  MAX_THREADS :: int
  VERBOSE :: bool

definition default_build :: "int \<Rightarrow> build" where
  "default_build max_threads = \<lparr>MEMWORDS = 1000000, MAX_THREADS = max_threads, VERBOSE = False\<rparr>"

text \<open>The validated command line: \<^verbatim>\<open>(nthread_input, iterations, m, n)\<close>.\<close>

type_synonym config = "int \<times> int \<times> int \<times> int"

text \<open>Every way the program leaves with \<^verbatim>\<open>EXIT_FAILURE\<close>, one constructor per diagnostic.\<close>

datatype error =
    Usage
  | InvalidThreads int
  | InvalidIterations int
  | NonPositiveDims int int
  | GridTooLarge int int
  | FewerRowsThanThreads int int
  | AllocFailed
  | SpawnMismatch int int
  | ChecksumMismatch int int
  | Undefined

text \<open>
  Lines 109--151. \<open>args\<close> are the values \<^verbatim>\<open>atoi\<close> returns for \<^verbatim>\<open>argv[1..]\<close>, so
  \<^verbatim>\<open>argc\<close> is their number plus one.
\<close>

definition check_args :: "build \<Rightarrow> int list \<Rightarrow> error + config" where
  "check_args b args =
     (if int (length args) + 1 \<noteq> 5 then Inl Usage
      else
        let nthread_input = args ! 0 in
        if nthread_input < 1 \<or> nthread_input > MAX_THREADS b then Inl (InvalidThreads nthread_input)
        else
          let iterations = args ! 1 in
          if iterations < 1 then Inl (InvalidIterations iterations)
          else
            let m = args ! 2; n = args ! 3 in
            if m < 1 \<or> n < 1 then Inl (NonPositiveDims m n)
            else
              let total_length = c_mul m n in
              if c_div total_length n \<noteq> m \<or> total_length > MEMWORDS b then Inl (GridTooLarge m n)
              else if m < nthread_input then Inl (FewerRowsThanThreads m nthread_input)
              else Inr (nthread_input, iterations, m, n))"


section \<open>Grid partitioner\<close>

text \<open>
  Lines 159--165. The arrays \<^verbatim>\<open>start\<close> and \<^verbatim>\<open>end\<close> are functions from the index to the
  stored value; \<^verbatim>\<open>malloc\<close> leaves them uninitialised, so their first contents are
  parameters.
\<close>

function partition_loop ::
  "int \<Rightarrow> int \<Rightarrow> int \<Rightarrow> (int \<Rightarrow> int) \<times> (int \<Rightarrow> int) \<Rightarrow> (int \<Rightarrow> int) \<times> (int \<Rightarrow> int)" where
  "partition_loop m nthread_input ID (start, endv) =
     (if ID < nthread_input then
        let segment_size = c_div m nthread_input;
            segment_size = (if ID < c_rem m nthread_input then segment_size + 1 else segment_size);
            start = (if ID > 0 then start(ID := endv (ID - 1) + 1) else start);
            endv = endv(ID := start ID + segment_size - 1)
        in partition_loop m nthread_input (ID + 1) (start, endv)
      else (start, endv))"
  by pat_completeness auto
termination
  by (relation "measure (\<lambda>(m, nthread_input, ID, se). nat (nthread_input - ID))") auto

declare partition_loop.simps [simp del]

definition partition :: "int \<Rightarrow> int \<Rightarrow> (int \<Rightarrow> int) \<times> (int \<Rightarrow> int) \<Rightarrow> (int \<Rightarrow> int) \<times> (int \<Rightarrow> int)" where
  "partition m nthread_input junk = partition_loop m nthread_input 0 ((fst junk)(0 := 0), snd junk)"

text \<open>
  The closed form of the loop's result, used to state and prove its properties: worker \<open>w\<close>
  gets \<open>segment m W w\<close> rows, the first of them row \<open>strip_start m W w\<close>.
\<close>

definition segment :: "int \<Rightarrow> int \<Rightarrow> int \<Rightarrow> int" where
  "segment m W w = m div W + (if w < m mod W then 1 else 0)"

definition strip_start :: "int \<Rightarrow> int \<Rightarrow> int \<Rightarrow> int" where
  "strip_start m W w = w * (m div W) + min w (m mod W)"


section \<open>The grid and its initialisation\<close>

text \<open>
  \<^verbatim>\<open>vector\<close> is the shared array of doubles; \<^verbatim>\<open>ARRAY(i,j)\<close> is \<^verbatim>\<open>vector[i+(j)*(m)]\<close>. Every
  value the program stores is an integer (a seed \<^verbatim>\<open>(double) j\<close>, or sums and differences of
  stored values), and doubles add and subtract integers exactly below \<open>2^53\<close>, so a cell is
  modelled by the integer it holds. The array is a function from the index to the value.
\<close>

type_synonym grid = "int \<Rightarrow> int"

definition ARRAY :: "int \<Rightarrow> int \<Rightarrow> int \<Rightarrow> int" where
  "ARRAY m i j = i + j * m"

text \<open>
  Lines 195--198, for the thread \<open>my_ID\<close>, as the list of its stores \<open>(index, value)\<close> in program
  order: the clearing loop, the seeding of row \<^verbatim>\<open>start[my_ID]\<close> (thread 0 only) and the seeding
  of column 0.
\<close>

definition clear_writes :: "int \<Rightarrow> int \<Rightarrow> (int \<Rightarrow> int) \<Rightarrow> (int \<Rightarrow> int) \<Rightarrow> int \<Rightarrow> (int \<times> int) list" where
  "clear_writes m n start endv my_ID =
     concat (map (\<lambda>j. map (\<lambda>i. (ARRAY m i j, 0)) [start my_ID..endv my_ID]) [0..n - 1])"

definition row_seed_writes :: "int \<Rightarrow> int \<Rightarrow> (int \<Rightarrow> int) \<Rightarrow> int \<Rightarrow> (int \<times> int) list" where
  "row_seed_writes m n start my_ID =
     (if my_ID = 0 then map (\<lambda>j. (ARRAY m (start my_ID) j, j)) [0..n - 1] else [])"

definition col_seed_writes :: "int \<Rightarrow> (int \<Rightarrow> int) \<Rightarrow> (int \<Rightarrow> int) \<Rightarrow> int \<Rightarrow> (int \<times> int) list" where
  "col_seed_writes m start endv my_ID = map (\<lambda>i. (ARRAY m i 0, i)) [start my_ID..endv my_ID]"

definition seed_writes :: "int \<Rightarrow> int \<Rightarrow> (int \<Rightarrow> int) \<Rightarrow> (int \<Rightarrow> int) \<Rightarrow> int \<Rightarrow> (int \<times> int) list" where
  "seed_writes m n start endv my_ID = row_seed_writes m n start my_ID @ col_seed_writes m start endv my_ID"

definition init_writes :: "int \<Rightarrow> int \<Rightarrow> (int \<Rightarrow> int) \<Rightarrow> (int \<Rightarrow> int) \<Rightarrow> int \<Rightarrow> (int \<times> int) list" where
  "init_writes m n start endv my_ID = clear_writes m n start endv my_ID @ seed_writes m n start endv my_ID"

definition store :: "int \<times> int \<Rightarrow> grid \<Rightarrow> grid" where
  "store w g = g(fst w := snd w)"

definition apply_writes :: "(int \<times> int) list \<Rightarrow> grid \<Rightarrow> grid" where
  "apply_writes ws g = fold store ws g"

text \<open>
  The threads initialise their strips side by side; each stores only into rows of its own
  strip, so the stores of different threads hit different cells and the model runs the
  threads one after the other, thread 0 first.
\<close>

definition init_grid :: "int \<Rightarrow> int \<Rightarrow> int \<Rightarrow> (int \<Rightarrow> int) \<Rightarrow> (int \<Rightarrow> int) \<Rightarrow> grid \<Rightarrow> grid" where
  "init_grid m n nthread start endv g =
     apply_writes (concat (map (init_writes m n start endv) [0..nthread - 1])) g"

section \<open>The pipelined sweep\<close>

text \<open>
  Lines 213--236, the column loop of one thread, as a state machine. A thread is at column
  \<open>j\<close> and at one of these program points:
  \<^item> \<open>Wait\<close>: the test of \<^verbatim>\<open>while (flag[my_ID-1] == 0)\<close>;
  \<^item> \<open>Clear\<close>: the store \<^verbatim>\<open>flag[my_ID-1] = 0\<close>;
  \<^item> \<open>Compute i\<close>: the test \<^verbatim>\<open>i <= end[my_ID]\<close> of the inner loop and, where it holds, its body;
  \<^item> \<open>PubWait\<close>: the test of \<^verbatim>\<open>while (flag[my_ID] == 1)\<close>;
  \<^item> \<open>Publish\<close>: the store \<^verbatim>\<open>flag[my_ID] = 1\<close>;
  \<^item> \<open>Done\<close>: past the column loop, waiting at the barrier of line 251.
  One step of a thread runs one of these statements; a spinning thread's step changes
  nothing. The threads share one memory and their steps interleave in any order (the
  schedule); the \<^verbatim>\<open>flush\<close> directives, which make the stores visible in that order, have no
  counterpart in the model.
\<close>

datatype loc = Wait | Clear | Compute int | PubWait | Publish | Done

type_synonym thread = "int \<times> loc"

record pstate =
  vector :: grid
  flag :: "int \<Rightarrow> int"
  pc :: "int \<Rightarrow> thread"

definition enter_column :: "int \<Rightarrow> (int \<Rightarrow> int) \<Rightarrow> int \<Rightarrow> int \<Rightarrow> thread" where
  "enter_column n start my_ID j =
     (if j < n then (j, if my_ID > 0 then Wait else Compute (MAX_macro (start my_ID) 1))
      else (j, Done))"

definition stencil :: "int \<Rightarrow> grid \<Rightarrow> int \<Rightarrow> int \<Rightarrow> int" where
  "stencil m g i j = g (ARRAY m (i - 1) j) + g (ARRAY m i (j - 1)) - g (ARRAY m (i - 1) (j - 1))"

definition thread_step ::
  "int \<Rightarrow> int \<Rightarrow> int \<Rightarrow> (int \<Rightarrow> int) \<Rightarrow> (int \<Rightarrow> int) \<Rightarrow> int \<Rightarrow> pstate \<Rightarrow> pstate" where
  "thread_step m n nthread start endv my_ID s =
     (case pc s my_ID of (j, l) \<Rightarrow>
        (case l of
           Wait \<Rightarrow>
             if flag s (my_ID - 1) = 0 then s
             else s\<lparr>pc := (pc s)(my_ID := (j, Clear))\<rparr>
         | Clear \<Rightarrow>
             s\<lparr>flag := (flag s)(my_ID - 1 := 0),
               pc := (pc s)(my_ID := (j, Compute (MAX_macro (start my_ID) 1)))\<rparr>
         | Compute i \<Rightarrow>
             if i \<le> endv my_ID
             then s\<lparr>vector := (vector s)(ARRAY m i j := stencil m (vector s) i j),
                    pc := (pc s)(my_ID := (j, Compute (i + 1)))\<rparr>
             else s\<lparr>pc := (pc s)(my_ID :=
                    (if my_ID < nthread - 1 then (j, PubWait) else enter_column n start my_ID (j + 1)))\<rparr>
         | PubWait \<Rightarrow>
             if flag s my_ID = 1 then s
             else s\<lparr>pc := (pc s)(my_ID := (j, Publish))\<rparr>
         | Publish \<Rightarrow>
             s\<lparr>flag := (flag s)(my_ID := 1),
               pc := (pc s)(my_ID := enter_column n start my_ID (j + 1))\<rparr>
         | Done \<Rightarrow> s))"

text \<open>
  A schedule names the thread that takes each next step; a number that names no thread
  moves nothing.
\<close>

definition sched_step ::
  "int \<Rightarrow> int \<Rightarrow> int \<Rightarrow> (int \<Rightarrow> int) \<Rightarrow> (int \<Rightarrow> int) \<Rightarrow> int \<Rightarrow> pstate \<Rightarrow> pstate" where
  "sched_step m n nthread start endv my_ID s =
     (if 0 \<le> my_ID \<and> my_ID < nthread then thread_step m n nthread start endv my_ID s else s)"

definition run_schedule ::
  "int \<Rightarrow> int \<Rightarrow> int \<Rightarrow> (int \<Rightarrow> int) \<Rightarrow> (int \<Rightarrow> int) \<Rightarrow> int list \<Rightarrow> pstate \<Rightarrow> pstate" where
  "run_schedule m n nthread start endv sched s = fold (sched_step m n nthread start endv) sched s"

definition all_done :: "int \<Rightarrow> pstate \<Rightarrow> bool" where
  "all_done nthread s = list_all (\<lambda>ID. snd (pc s ID) = Done) [0..nthread - 1]"

text \<open>
  Lines 203--236 of one iteration: every thread clears its flag, the barrier of line 206,
  then the column loops under the given schedule. The barrier of line 251 lets the threads
  pass only when all of them are through their loops; a schedule that ends before that is
  not a run of the iteration (\<open>None\<close>).
\<close>

definition reset_flags :: "int \<Rightarrow> (int \<Rightarrow> int) \<Rightarrow> (int \<Rightarrow> int)" where
  "reset_flags nthread f = (\<lambda>ID. if 0 \<le> ID \<and> ID < nthread then 0 else f ID)"

definition sweep_start :: "int \<Rightarrow> int \<Rightarrow> (int \<Rightarrow> int) \<Rightarrow> grid \<Rightarrow> (int \<Rightarrow> int) \<Rightarrow> pstate" where
  "sweep_start n nthread start g f =
     \<lparr>vector = g, flag = reset_flags nthread f, pc = (\<lambda>ID. enter_column n start ID 1)\<rparr>"

definition sweep ::
  "int \<Rightarrow> int \<Rightarrow> int \<Rightarrow> (int \<Rightarrow> int) \<Rightarrow> (int \<Rightarrow> int) \<Rightarrow> int list \<Rightarrow> grid \<times> (int \<Rightarrow> int)
     \<Rightarrow> (grid \<times> (int \<Rightarrow> int)) option" where
  "sweep m n nthread start endv sched gf =
     (let s = run_schedule m n nthread start endv sched (sweep_start n nthread start (fst gf) (snd gf))
      in if all_done nthread s then Some (vector s, flag s) else None)"

text \<open>Line 254, by the master thread after the barrier.\<close>

definition feedback :: "int \<Rightarrow> int \<Rightarrow> grid \<Rightarrow> grid" where
  "feedback m n g = g(ARRAY m 0 0 := - g (ARRAY m (m - 1) (n - 1)))"

section \<open>Timing\<close>

text \<open>
  \<^verbatim>\<open>wtime\<close> is the clock of the missing common code; the elapsed time the master measures in
  an iteration is an input of the model. Times are real numbers: rounding of doubles is not
  modelled.
\<close>

record timing =
  avgtime :: real
  mintime :: real
  maxtime :: real

definition timing_init :: timing where
  "timing_init = \<lparr>avgtime = 0, mintime = 366 * 24 * 3600, maxtime = 0\<rparr>"

text \<open>Lines 240--245.\<close>

definition record_time :: "int \<Rightarrow> int \<Rightarrow> real \<Rightarrow> timing \<Rightarrow> timing" where
  "record_time iterations iter pipeline_time t =
     (if iter > 0 \<or> iterations = 1
      then \<lparr>avgtime = avgtime t + pipeline_time,
            mintime = MIN_macro (mintime t) pipeline_time,
            maxtime = MAX_macro (maxtime t) pipeline_time\<rparr>
      else t)"

section \<open>The iteration loop\<close>

text \<open>
  Lines 200--256. Each iteration takes from the environment the schedule of its column loops
  and the elapsed time its timer shows.
\<close>

type_synonym loop_state = "grid \<times> (int \<Rightarrow> int) \<times> timing"

fun iteration_loop ::
  "int \<Rightarrow> int \<Rightarrow> int \<Rightarrow> (int \<Rightarrow> int) \<Rightarrow> (int \<Rightarrow> int) \<Rightarrow> int \<Rightarrow> int \<Rightarrow> (int list \<times> real) list
     \<Rightarrow> loop_state \<Rightarrow> loop_state option" where
  "iteration_loop m n nthread start endv iterations iter [] st =
     (if iter < iterations then None else Some st)"
| "iteration_loop m n nthread start endv iterations iter (e # env) st =
     (if iter < iterations then
        (case sweep m n nthread start endv (fst e) (fst st, fst (snd st)) of
           None \<Rightarrow> None
         | Some gf \<Rightarrow>
             iteration_loop m n nthread start endv iterations (iter + 1) env
               (feedback m n (fst gf), snd gf, record_time iterations iter (snd e) (snd (snd st))))
      else Some st)"

text \<open>
  The parallel region after the spawn check (lines 192--256). The static array starts
  zeroed; the flags start with whatever the stack holds.
\<close>

definition pipeline ::
  "int \<Rightarrow> int \<Rightarrow> int \<Rightarrow> (int \<Rightarrow> int) \<Rightarrow> (int \<Rightarrow> int) \<Rightarrow> int \<Rightarrow> (int \<Rightarrow> int) \<Rightarrow> (int list \<times> real) list
     \<Rightarrow> loop_state option" where
  "pipeline m n nthread start endv iterations flag_junk env =
     iteration_loop m n nthread start endv iterations 0 env
       (init_grid m n nthread start endv (\<lambda>_. 0), flag_junk, timing_init)"

section \<open>Verification and report\<close>

text \<open>
  Dividing doubles by zero gives an infinity or a NaN where the reals of HOL give 0, so the
  quotients the program forms are values of \<open>double\<close>; a comparison with a NaN is false.
\<close>

datatype double = Finite real | PlusInf | MinusInf | NaN

definition ddiv :: "real \<Rightarrow> real \<Rightarrow> double" where
  "ddiv x y =
     (if y \<noteq> 0 then Finite (x / y)
      else if x > 0 then PlusInf else if x < 0 then MinusInf else NaN)"

fun dgreater :: "double \<Rightarrow> real \<Rightarrow> bool" where
  "dgreater (Finite x) e = (x > e)"
| "dgreater PlusInf e = True"
| "dgreater MinusInf e = False"
| "dgreater NaN e = False"

definition epsilon :: real where
  "epsilon = 1 / 100000000"

text \<open>
  Lines 265--270. The product \<^verbatim>\<open>iterations*(n+m-2)\<close> is formed in \<^verbatim>\<open>int\<close> before it is
  converted (\<open>n + m - 2\<close> itself is below \<open>m * n\<close> and cannot leave the range). \<^verbatim>\<open>abs\<close> is the
  C library's function on \<^verbatim>\<open>int\<close>: its argument, the difference of two doubles, is converted
  to \<^verbatim>\<open>int\<close>, which C leaves undefined outside the range of \<^verbatim>\<open>int\<close>, as it does
  \<^verbatim>\<open>abs(INT_MIN)\<close>. The difference is an integer here, so the conversion changes nothing in
  range.
\<close>

definition verify :: "int \<Rightarrow> int \<Rightarrow> int \<Rightarrow> grid \<Rightarrow> error + unit" where
  "verify iterations m n g =
     (let corner_val = c_mul iterations (n + m - 2);
          d = g (ARRAY m (m - 1) (n - 1)) - corner_val
      in if \<not> is_int d \<or> d = INT_MIN then Inl Undefined
         else if dgreater (ddiv (real_of_int \<bar>d\<bar>) (real_of_int corner_val)) epsilon
           then Inl (ChecksumMismatch (g (ARRAY m (m - 1) (n - 1))) corner_val)
           else Inr ())"

text \<open>
  What \<^verbatim>\<open>printf\<close> writes, as pieces: literal text, a \<^verbatim>\<open>%d\<close> and a \<^verbatim>\<open>%lf\<close> conversion (the
  digits a conversion prints are the C library's business). A format with a conversion that
  finds no argument of its type stops the output.
\<close>

datatype arg = IntArg int | DblArg double

datatype piece = Chars string | Dec int | Flt double

fun add_char :: "char \<Rightarrow> piece list \<Rightarrow> piece list" where
  "add_char c (Chars cs # ps) = Chars (c # cs) # ps"
| "add_char c ps = Chars [c] # ps"

fun printf :: "string \<Rightarrow> arg list \<Rightarrow> piece list" where
  "printf [] args = []"
| "printf [c] args = [Chars [c]]"
| "printf (c # d # fmt) args =
     (if c = CHR ''%'' \<and> d = CHR ''d'' then
        (case args of IntArg k # rest \<Rightarrow> Dec k # printf fmt rest | _ \<Rightarrow> [])
      else if c = CHR ''%'' \<and> d = CHR ''l'' then
        (case fmt of
           f # fmt' \<Rightarrow>
             (if f = CHR ''f'' then
                (case args of DblArg x # rest \<Rightarrow> Flt x # printf fmt' rest | _ \<Rightarrow> [])
              else [])
         | [] \<Rightarrow> [])
      else add_char c (printf (d # fmt) args))"

text \<open>Consecutive outputs join: text that ends one \<^verbatim>\<open>printf\<close> runs on into the next.\<close>

fun join :: "piece list \<Rightarrow> piece list \<Rightarrow> piece list" where
  "join [] qs = qs"
| "join [Chars cs] (Chars ds # qs) = Chars (cs @ ds) # qs"
| "join (p # ps) qs = p # join ps qs"

definition newline :: string where
  "newline = [CHR 0x0A]"

text \<open>Lines 272--282: what the program prints once the solution validates.\<close>

definition report :: "build \<Rightarrow> int \<Rightarrow> int \<Rightarrow> int \<Rightarrow> int \<Rightarrow> timing \<Rightarrow> piece list" where
  "report b nthread iterations m n t =
     (let corner_val = c_mul iterations (n + m - 2);
          validates =
            (if VERBOSE b then
               join (printf (''Solution validates; verification value = %lf'' @ newline)
                       [DblArg (Finite (real_of_int corner_val))])
                    (printf (''Point-to-point synchronizations/s: %lf'' @ newline)
                       [DblArg (ddiv (real_of_int ((n - 1) * (nthread - 1))) (mintime t))])
             else printf (''Solution validates'' @ newline) []);
          avgtime = avgtime t / real_of_int (MAX_macro (iterations - 1) 1)
      in join validates
           (join (printf ''Rate (MFlops/s): %lf, Avg time (s): %lf, Min time (s): %lf''
                    [DblArg (ddiv (1 / 1000000 * 2 * real_of_int ((m - 1) * (n - 1))) (mintime t)),
                     DblArg (Finite avgtime), DblArg (Finite (mintime t))])
                 (printf ('', Max time (s): %lf'' @ newline) [DblArg (Finite (maxtime t))])))"

section \<open>The program\<close>

text \<open>
  What the program does not decide itself: whether \<^verbatim>\<open>malloc\<close> succeeds and what the block
  and the stack hold, how many threads the runtime spawns, and per iteration the schedule
  and the elapsed time.
\<close>

record world =
  malloc_ok :: bool
  heap_junk :: "(int \<Rightarrow> int) \<times> (int \<Rightarrow> int)"
  flag_junk :: "int \<Rightarrow> int"
  spawned :: int
  runs :: "(int list \<times> real) list"


section \<open>Invariants of the sweep\<close>

definition lo :: "(int \<Rightarrow> int) \<Rightarrow> int \<Rightarrow> int" where
  "lo start w = MAX_macro (start w) 1"

definition strips :: "int \<Rightarrow> int \<Rightarrow> (int \<Rightarrow> int) \<Rightarrow> (int \<Rightarrow> int) \<Rightarrow> bool" where
  "strips m nthread start endv \<longleftrightarrow>
     1 \<le> nthread \<and> start 0 = 0 \<and> endv (nthread - 1) = m - 1
     \<and> (\<forall>w. 0 \<le> w \<and> w < nthread - 1 \<longrightarrow> start (w + 1) = endv w + 1)
     \<and> (\<forall>w. 0 \<le> w \<and> w < nthread \<longrightarrow> 0 \<le> start w \<and> start w \<le> endv w \<and> endv w \<le> m - 1)
     \<and> (\<forall>i. 0 \<le> i \<and> i < m \<longrightarrow> (\<exists>w. 0 \<le> w \<and> w < nthread \<and> start w \<le> i \<and> i \<le> endv w))
     \<and> (\<forall>w v. 0 \<le> w \<and> w < v \<and> v < nthread \<longrightarrow> endv w < start v)"

fun loc_ok :: "int \<Rightarrow> (int \<Rightarrow> int) \<Rightarrow> (int \<Rightarrow> int) \<Rightarrow> int \<Rightarrow> loc \<Rightarrow> bool" where
  "loc_ok nthread start endv w Wait = (0 < w)"
| "loc_ok nthread start endv w Clear = (0 < w)"
| "loc_ok nthread start endv w (Compute i) = (lo start w \<le> i \<and> i \<le> endv w + 1)"
| "loc_ok nthread start endv w PubWait = (w < nthread - 1)"
| "loc_ok nthread start endv w Publish = (w < nthread - 1)"
| "loc_ok nthread start endv w Done = True"

definition pc_ok :: "int \<Rightarrow> int \<Rightarrow> (int \<Rightarrow> int) \<Rightarrow> (int \<Rightarrow> int) \<Rightarrow> int \<Rightarrow> thread \<Rightarrow> bool" where
  "pc_ok n nthread start endv w t \<longleftrightarrow>
     1 \<le> fst t \<and> fst t \<le> n \<and> (snd t = Done \<longleftrightarrow> fst t = n) \<and> loc_ok nthread start endv w (snd t)"

definition inv_pc :: "int \<Rightarrow> int \<Rightarrow> (int \<Rightarrow> int) \<Rightarrow> (int \<Rightarrow> int) \<Rightarrow> pstate \<Rightarrow> bool" where
  "inv_pc n nthread start endv s \<longleftrightarrow> (\<forall>w. 0 \<le> w \<and> w < nthread \<longrightarrow> pc_ok n nthread start endv w (pc s w))"

fun consumed :: "thread \<Rightarrow> int" where
  "consumed (j, Wait) = j - 1"
| "consumed (j, Clear) = j - 1"
| "consumed (j, Done) = j - 1"
| "consumed (j, Compute i) = j"
| "consumed (j, PubWait) = j"
| "consumed (j, Publish) = j"

definition flag_ok :: "pstate \<Rightarrow> int \<Rightarrow> bool" where
  "flag_ok s w \<longleftrightarrow>
     flag s w = fst (pc s w) - 1 - consumed (pc s (w + 1))
     \<and> (flag s w = 0 \<or> flag s w = 1)
     \<and> (snd (pc s (w + 1)) = Clear \<longrightarrow> flag s w = 1)
     \<and> (snd (pc s w) = Publish \<longrightarrow> flag s w = 0)"

definition inv_flag :: "int \<Rightarrow> pstate \<Rightarrow> bool" where
  "inv_flag nthread s \<longleftrightarrow> (\<forall>w. 0 \<le> w \<and> w < nthread - 1 \<longrightarrow> flag_ok s w)"

definition cell_value :: "int \<Rightarrow> int \<Rightarrow> int \<Rightarrow> int" where
  "cell_value c i j = (if i = 0 then (if j = 0 then c else j) else if j = 0 then i else i + j - c)"

fun in_column :: "loc \<Rightarrow> int \<Rightarrow> bool" where
  "in_column (Compute i') i = (i < i')"
| "in_column PubWait i = True"
| "in_column Publish i = True"
| "in_column Wait i = False"
| "in_column Clear i = False"
| "in_column Done i = False"

definition computed :: "(int \<Rightarrow> int) \<Rightarrow> (int \<Rightarrow> int) \<Rightarrow> int \<Rightarrow> thread \<Rightarrow> int \<Rightarrow> int \<Rightarrow> bool" where
  "computed start endv w t i j \<longleftrightarrow>
     lo start w \<le> i \<and> i \<le> endv w \<and> 1 \<le> j \<and> (j < fst t \<or> (j = fst t \<and> in_column (snd t) i))"

definition computed_any :: "int \<Rightarrow> (int \<Rightarrow> int) \<Rightarrow> (int \<Rightarrow> int) \<Rightarrow> pstate \<Rightarrow> int \<Rightarrow> int \<Rightarrow> bool" where
  "computed_any nthread start endv s i j \<longleftrightarrow>
     (\<exists>w. 0 \<le> w \<and> w < nthread \<and> computed start endv w (pc s w) i j)"

definition seeded :: "int \<Rightarrow> int \<Rightarrow> grid \<Rightarrow> bool" where
  "seeded m n g \<longleftrightarrow>
     (\<forall>j. 1 \<le> j \<and> j < n \<longrightarrow> g (ARRAY m 0 j) = j) \<and> (\<forall>i. 1 \<le> i \<and> i < m \<longrightarrow> g (ARRAY m i 0) = i)"

definition inv_grid :: "int \<Rightarrow> int \<Rightarrow> (int \<Rightarrow> int) \<Rightarrow> (int \<Rightarrow> int) \<Rightarrow> grid \<Rightarrow> pstate \<Rightarrow> bool" where
  "inv_grid m nthread start endv G s \<longleftrightarrow>
     (\<forall>i j. computed_any nthread start endv s i j \<longrightarrow>
        vector s (ARRAY m i j) = cell_value (G (ARRAY m 0 0)) i j)
     \<and> (\<forall>k. (\<forall>i j. computed_any nthread start endv s i j \<longrightarrow> k \<noteq> ARRAY m i j) \<longrightarrow> vector s k = G k)"

definition body_step :: "(int \<Rightarrow> int) \<Rightarrow> pstate \<Rightarrow> int \<Rightarrow> int \<Rightarrow> int \<Rightarrow> bool" where
  "body_step endv s a i j \<longleftrightarrow> pc s a = (j, Compute i) \<and> i \<le> endv a"

definition inv :: "int \<Rightarrow> int \<Rightarrow> int \<Rightarrow> (int \<Rightarrow> int) \<Rightarrow> (int \<Rightarrow> int) \<Rightarrow> grid \<Rightarrow> pstate \<Rightarrow> bool" where
  "inv m n nthread start endv G s \<longleftrightarrow>
     inv_pc n nthread start endv s \<and> inv_flag nthread s \<and> inv_grid m nthread start endv G s"

definition swept :: "int \<Rightarrow> int \<Rightarrow> grid \<Rightarrow> grid" where
  "swept m n g = (\<lambda>k. if 1 \<le> k mod m \<and> 1 \<le> k div m \<and> k div m < n
                         then k mod m + k div m - g 0 else g k)"

definition blocked :: "pstate \<Rightarrow> int \<Rightarrow> bool" where
  "blocked s a \<longleftrightarrow>
     (case snd (pc s a) of Wait \<Rightarrow> flag s (a - 1) = 0 | PubWait \<Rightarrow> flag s a = 1 | Done \<Rightarrow> True
      | _ \<Rightarrow> False)"

definition can_move :: "int \<Rightarrow> pstate \<Rightarrow> bool" where
  "can_move nthread s \<longleftrightarrow> (\<exists>a. 0 \<le> a \<and> a < nthread \<and> \<not> blocked s a)"

definition rows :: "(int \<Rightarrow> int) \<Rightarrow> (int \<Rightarrow> int) \<Rightarrow> int \<Rightarrow> int" where
  "rows start endv w = endv w + 1 - lo start w"

fun pos :: "(int \<Rightarrow> int) \<Rightarrow> (int \<Rightarrow> int) \<Rightarrow> int \<Rightarrow> loc \<Rightarrow> int" where
  "pos start endv w Wait = 0"
| "pos start endv w Clear = 1"
| "pos start endv w (Compute i) = 2 + (i - lo start w)"
| "pos start endv w PubWait = 3 + rows start endv w"
| "pos start endv w Publish = 4 + rows start endv w"
| "pos start endv w Done = 0"

definition rank :: "int \<Rightarrow> (int \<Rightarrow> int) \<Rightarrow> (int \<Rightarrow> int) \<Rightarrow> int \<Rightarrow> thread \<Rightarrow> int" where
  "rank n start endv w t = (n - fst t) * (rows start endv w + 5) - pos start endv w (snd t)"

definition remaining :: "int \<Rightarrow> int \<Rightarrow> (int \<Rightarrow> int) \<Rightarrow> (int \<Rightarrow> int) \<Rightarrow> pstate \<Rightarrow> nat" where
  "remaining n nthread start endv s = (\<Sum>w \<in> {0..<nthread}. nat (rank n start endv w (pc s w)))"

primrec origin_after :: "int \<Rightarrow> int \<Rightarrow> nat \<Rightarrow> int" where
  "origin_after m n 0 = 0"
| "origin_after m n (Suc t) = - cell_value (origin_after m n t) (m - 1) (n - 1)"

definition cell_after :: "int \<Rightarrow> int \<Rightarrow> nat \<Rightarrow> int \<Rightarrow> int \<Rightarrow> int" where
  "cell_after m n t i j =
     (if i = 0 then (if j = 0 then origin_after m n t else j)
      else if j = 0 then i
      else (case t of 0 \<Rightarrow> 0 | Suc t' \<Rightarrow> i + j - origin_after m n t'))"

definition grid_after :: "int \<Rightarrow> int \<Rightarrow> nat \<Rightarrow> grid" where
  "grid_after m n t =
     (\<lambda>k. if 0 \<le> k div m \<and> k div m < n then cell_after m n t (k mod m) (k div m) else 0)"

definition in_strip :: "int \<Rightarrow> int \<Rightarrow> (int \<Rightarrow> int) \<Rightarrow> (int \<Rightarrow> int) \<Rightarrow> int \<Rightarrow> int \<Rightarrow> bool" where
  "in_strip m n start endv w k \<longleftrightarrow>
     start w \<le> k mod m \<and> k mod m \<le> endv w \<and> 0 \<le> k div m \<and> k div m < n"

fun timing_loop :: "int \<Rightarrow> int \<Rightarrow> real list \<Rightarrow> timing \<Rightarrow> timing" where
  "timing_loop iterations iter [] t = t"
| "timing_loop iterations iter (x # xs) t =
     (if iter < iterations then timing_loop iterations (iter + 1) xs (record_time iterations iter x t)
      else t)"


section \<open>Vocabulary of the report\<close>

definition accumulate :: "real \<Rightarrow> timing \<Rightarrow> timing" where
  "accumulate x t =
     \<lparr>avgtime = avgtime t + x, mintime = MIN_macro (mintime t) x, maxtime = MAX_macro (maxtime t) x\<rparr>"

definition kept_samples :: "int \<Rightarrow> real list \<Rightarrow> real list" where
  "kept_samples iterations ts = (if iterations = 1 then take 1 ts else drop 1 (take (nat iterations) ts))"

datatype tok = Ch char | NumD double | NumI int

fun toks :: "piece list \<Rightarrow> tok list" where
  "toks [] = []"
| "toks (Chars cs # ps) = map Ch cs @ toks ps"
| "toks (Dec k # ps) = NumI k # toks ps"
| "toks (Flt x # ps) = NumD x # toks ps"

fun lines_acc :: "tok list \<Rightarrow> tok list \<Rightarrow> tok list list" where
  "lines_acc cur [] = (if cur = [] then [] else [rev cur])"
| "lines_acc cur (t # ts) =
     (if t = Ch (CHR 0x0A) then rev cur # lines_acc [] ts else lines_acc (t # cur) ts)"

definition lines_of :: "piece list \<Rightarrow> tok list list" where
  "lines_of out = lines_acc [] (toks out)"

definition final_line :: "double \<Rightarrow> double \<Rightarrow> double \<Rightarrow> double \<Rightarrow> tok list" where
  "final_line r a mn mx =
     map Ch ''Rate (MFlops/s): '' @ [NumD r] @ map Ch '', Avg time (s): '' @ [NumD a]
     @ map Ch '', Min time (s): '' @ [NumD mn] @ map Ch '', Max time (s): '' @ [NumD mx]"

definition corner :: "int \<Rightarrow> int \<Rightarrow> grid \<Rightarrow> int" where
  "corner m n g = g (ARRAY m (m - 1) (n - 1))"





section \<open>Properties of the partitioner\<close>


lemma c_div_nonneg: "0 \<le> a \<Longrightarrow> 0 < b \<Longrightarrow> c_div a b = a div b"
  by (cases "a = 0") (simp_all add: c_div_def)

lemma c_rem_nonneg: "0 \<le> a \<Longrightarrow> 0 < b \<Longrightarrow> c_rem a b = a mod b"
  by (simp add: c_rem_def c_div_nonneg minus_mult_div_eq_mod)

lemma strip_start_Suc: "strip_start m W (w + 1) = strip_start m W w + segment m W w"
  by (simp add: strip_start_def segment_def algebra_simps min_def)

lemma partition_loop_inv:
  assumes "partition_loop m W ID (start, endv) = (s', e')"
    and "1 \<le> W" "0 \<le> m" "0 \<le> ID" "ID \<le> W"
    and "start 0 = 0"
    and "\<forall>w. 0 \<le> w \<and> w < ID \<longrightarrow> start w = strip_start m W w \<and> endv w = strip_start m W (w + 1) - 1"
  shows "\<forall>w. 0 \<le> w \<and> w < W \<longrightarrow> s' w = strip_start m W w \<and> e' w = strip_start m W (w + 1) - 1"
  using assms
proof (induction m W ID "(start, endv)" arbitrary: start endv rule: partition_loop.induct)
  case (1 m W ID start endv)
  show ?case
  proof (cases "ID < W")
    case False
    with "1.prems" show ?thesis
      by (simp add: partition_loop.simps [of m W ID])
  next
    case True
    let ?st = "(if ID > 0 then start(ID := endv (ID - 1) + 1) else start)"
    let ?en = "endv(ID := ?st ID + (if ID < c_rem m W then c_div m W + 1 else c_div m W) - 1)"
    have run: "partition_loop m W (ID + 1) (?st, ?en) = (s', e')"
      using "1.prems"(1) True by (subst (asm) partition_loop.simps) (simp only: if_True Let_def)
    have dv: "c_div m W = m div W" "c_rem m W = m mod W"
      using "1.prems" by (simp_all add: c_div_nonneg c_rem_nonneg)
    have st_ID: "?st ID = strip_start m W ID"
    proof (cases "ID > 0")
      case True
      then show ?thesis using "1.prems"(7) [rule_format, of "ID - 1"] by simp
    next
      case False
      then have "ID = 0" using "1.prems" by simp
      then show ?thesis using "1.prems" by (simp add: strip_start_def)
    qed
    have en_ID: "?en ID = strip_start m W (ID + 1) - 1"
    proof -
      have "?en ID = ?st ID + segment m W ID - 1"
        by (simp add: dv segment_def)
      then show ?thesis by (simp add: st_ID strip_start_Suc)
    qed
    have inv: "\<forall>w. 0 \<le> w \<and> w < ID + 1 \<longrightarrow> ?st w = strip_start m W w \<and> ?en w = strip_start m W (w + 1) - 1"
    proof (intro allI impI)
      fix w assume w: "0 \<le> w \<and> w < ID + 1"
      show "?st w = strip_start m W w \<and> ?en w = strip_start m W (w + 1) - 1"
      proof (cases "w = ID")
        case True
        then show ?thesis using st_ID en_ID by blast
      next
        case False
        then have "w < ID" using w by simp
        then show ?thesis using "1.prems"(7) [rule_format, of w] w False by simp
      qed
    qed
    have st0: "?st 0 = 0" using "1.prems" by simp
    have b: "0 \<le> ID + 1" "ID + 1 \<le> W" using "1.prems" True by simp_all
    show ?thesis
      by (rule "1.hyps" [OF True refl refl refl refl run "1.prems"(2,3) b st0 inv])
  qed
qed

lemma strip_start_0: "0 < W \<Longrightarrow> strip_start m W 0 = 0"
  by (simp add: strip_start_def)

lemma strip_start_W: "0 < W \<Longrightarrow> strip_start m W W = m"
proof -
  assume "0 < W"
  then have "m mod W < W" by simp
  then show ?thesis by (simp add: strip_start_def min_def)
qed

lemma segment_pos: "1 \<le> W \<Longrightarrow> W \<le> m \<Longrightarrow> 1 \<le> segment m W w"
proof -
  assume "1 \<le> W" "W \<le> m"
  then have "0 < m div W"
    by (simp add: pos_imp_zdiv_pos_iff)
  then show ?thesis by (simp add: segment_def)
qed

lemma strip_start_mono: "0 \<le> m \<Longrightarrow> 0 < W \<Longrightarrow> w \<le> v \<Longrightarrow> strip_start m W w \<le> strip_start m W v"
proof -
  assume a: "0 \<le> m" "0 < W" "w \<le> v"
  then have "0 \<le> m div W" by (simp add: pos_imp_zdiv_nonneg_iff)
  with a have "w * (m div W) \<le> v * (m div W)" by (simp add: mult_right_mono)
  moreover have "min w (m mod W) \<le> min v (m mod W)" using a by simp
  ultimately show ?thesis by (simp add: strip_start_def)
qed

lemma interval_find:
  fixes f :: "int \<Rightarrow> int"
  shows "f 0 \<le> i \<Longrightarrow> i < f (int k) \<Longrightarrow> \<exists>w. 0 \<le> w \<and> w < int k \<and> f w \<le> i \<and> i < f (w + 1)"
proof (induction k)
  case 0
  then show ?case by simp
next
  case (Suc k)
  show ?case
  proof (cases "i < f (int k)")
    case True
    with Suc obtain w where "0 \<le> w" "w < int k" "f w \<le> i" "i < f (w + 1)" by blast
    then show ?thesis by (intro exI [of _ w]) simp
  next
    case False
    with Suc.prems show ?thesis by (intro exI [of _ "int k"]) (simp add: add.commute)
  qed
qed

lemma partition_closed_form:
  assumes "1 \<le> W" "0 \<le> m" "partition m W junk = (start, endv)" "0 \<le> w" "w < W"
  shows "start w = strip_start m W w" "endv w = strip_start m W (w + 1) - 1"
proof -
  have "\<forall>w. 0 \<le> w \<and> w < W \<longrightarrow> start w = strip_start m W w \<and> endv w = strip_start m W (w + 1) - 1"
    by (rule partition_loop_inv [OF assms(3) [unfolded partition_def] assms(1,2)]) (use assms in simp_all)
  with assms show "start w = strip_start m W w" "endv w = strip_start m W (w + 1) - 1" by simp_all
qed

lemma partition_props:
  assumes W: "1 \<le> W" "W \<le> m" and p: "partition m W junk = (start, endv)"
  shows "start 0 = 0" "endv (W - 1) = m - 1"
    and "\<And>w. 0 \<le> w \<Longrightarrow> w < W - 1 \<Longrightarrow> start (w + 1) = endv w + 1"
    and "\<And>w. 0 \<le> w \<Longrightarrow> w < W \<Longrightarrow> 0 \<le> start w \<and> start w \<le> endv w \<and> endv w \<le> m - 1"
    and "\<And>w v. 0 \<le> w \<Longrightarrow> w < v \<Longrightarrow> v < W \<Longrightarrow> endv w < start v"
    and "\<And>i. 0 \<le> i \<Longrightarrow> i < m \<Longrightarrow> \<exists>!w. 0 \<le> w \<and> w < W \<and> start w \<le> i \<and> i \<le> endv w"
    and "\<And>w v. 0 \<le> w \<Longrightarrow> w < W \<Longrightarrow> 0 \<le> v \<Longrightarrow> v < W \<Longrightarrow>
          \<bar>(endv w - start w + 1) - (endv v - start v + 1)\<bar> \<le> 1"
    and "\<And>w. 0 \<le> w \<Longrightarrow> w < W \<Longrightarrow>
          endv w - start w + 1 = m div W + (if w < m mod W then 1 else 0)"
proof -
  have m: "0 \<le> m" "0 < W" using W by simp_all
  note cf = partition_closed_form [OF W(1) m(1) p]
  have size: "endv w - start w + 1 = segment m W w" if "0 \<le> w" "w < W" for w
    using cf [OF that] by (simp add: strip_start_Suc)
  have c1: "start 0 = 0" using cf(1) [of 0] m by (simp add: strip_start_0)
  have c2: "endv (W - 1) = m - 1" using cf(2) [of "W - 1"] m by (simp add: strip_start_W)
  have c3: "start (w + 1) = endv w + 1" if "0 \<le> w" "w < W - 1" for w
    using cf(1) [of "w + 1"] cf(2) [of w] that by simp
  have lo: "0 \<le> start w" if "0 \<le> w" "w < W" for w
    using cf(1) [OF that] strip_start_mono [OF m, of 0 w] that by (simp add: strip_start_0)
  have ne: "start w \<le> endv w" if "0 \<le> w" "w < W" for w
    using size [OF that] segment_pos [OF W, of w] by simp
  have hi: "endv w \<le> m - 1" if "0 \<le> w" "w < W" for w
    using cf(2) [OF that] strip_start_mono [OF m, of "w + 1" W] that by (simp add: strip_start_W [OF m(2)])
  have c5: "endv w < start v" if "0 \<le> w" "w < v" "v < W" for w v
    using cf(2) [of w] cf(1) [of v] strip_start_mono [OF m, of "w + 1" v] that by simp
  have ex: "\<exists>w. 0 \<le> w \<and> w < W \<and> start w \<le> i \<and> i \<le> endv w" if "0 \<le> i" "i < m" for i
  proof -
    have "\<exists>w. 0 \<le> w \<and> w < int (nat W) \<and> strip_start m W w \<le> i \<and> i < strip_start m W (w + 1)"
      by (rule interval_find) (use that m in \<open>simp_all add: strip_start_0 strip_start_W\<close>)
    then obtain w where w: "0 \<le> w" "w < W" "strip_start m W w \<le> i" "i < strip_start m W (w + 1)"
      using m by auto
    then show ?thesis using cf [OF w(1,2)] by (intro exI [of _ w]) simp
  qed
  have uniq: "w = v" if "0 \<le> w" "w < W" "start w \<le> i" "i \<le> endv w"
      "0 \<le> v" "v < W" "start v \<le> i" "i \<le> endv v" for w v i
  proof (rule ccontr)
    assume "w \<noteq> v"
    then consider "w < v" | "v < w" by linarith
    then show False
    proof cases
      case 1
      then show False using c5 [of w v] that by simp
    next
      case 2
      then show False using c5 [of v w] that by simp
    qed
  qed
  have c6: "\<exists>!w. 0 \<le> w \<and> w < W \<and> start w \<le> i \<and> i \<le> endv w" if "0 \<le> i" "i < m" for i
  proof -
    from ex [OF that] obtain w where w: "0 \<le> w \<and> w < W \<and> start w \<le> i \<and> i \<le> endv w" ..
    show ?thesis
    proof (rule ex1I [of _ w])
      show "0 \<le> w \<and> w < W \<and> start w \<le> i \<and> i \<le> endv w" by (rule w)
    next
      fix v assume "0 \<le> v \<and> v < W \<and> start v \<le> i \<and> i \<le> endv v"
      then show "v = w" using w uniq [of v i w] by simp
    qed
  qed
  have c7: "\<bar>(endv w - start w + 1) - (endv v - start v + 1)\<bar> \<le> 1"
    if "0 \<le> w" "w < W" "0 \<le> v" "v < W" for w v
    using size [OF that(1,2)] size [OF that(3,4)] by (simp add: segment_def)
  have c8: "endv w - start w + 1 = m div W + (if w < m mod W then 1 else 0)" if "0 \<le> w" "w < W" for w
    using size [OF that] by (simp add: segment_def)
  show "start 0 = 0" by (rule c1)
  show "endv (W - 1) = m - 1" by (rule c2)
  show "\<And>w. 0 \<le> w \<Longrightarrow> w < W - 1 \<Longrightarrow> start (w + 1) = endv w + 1" by (rule c3)
  show "\<And>w. 0 \<le> w \<Longrightarrow> w < W \<Longrightarrow> 0 \<le> start w \<and> start w \<le> endv w \<and> endv w \<le> m - 1"
    using lo ne hi by simp
  show "\<And>w v. 0 \<le> w \<Longrightarrow> w < v \<Longrightarrow> v < W \<Longrightarrow> endv w < start v" by (rule c5)
  show "\<And>i. 0 \<le> i \<Longrightarrow> i < m \<Longrightarrow> \<exists>!w. 0 \<le> w \<and> w < W \<and> start w \<le> i \<and> i \<le> endv w" by (rule c6)
  show "\<And>w v. 0 \<le> w \<Longrightarrow> w < W \<Longrightarrow> 0 \<le> v \<Longrightarrow> v < W \<Longrightarrow>
          \<bar>(endv w - start w + 1) - (endv v - start v + 1)\<bar> \<le> 1" by (rule c7)
  show "\<And>w. 0 \<le> w \<Longrightarrow> w < W \<Longrightarrow>
          endv w - start w + 1 = m div W + (if w < m mod W then 1 else 0)" by (rule c8)
qed

text \<open>
  Claim C2. For \<open>1 \<le> W \<le> m\<close> the partition loop leaves, whatever the arrays held before,
  \<open>W\<close> ranges \<open>[start w, endv w]\<close> that begin at row 0 and end at row \<open>m - 1\<close>, follow each
  other without a gap (contiguous), lie inside \<open>[0, m - 1]\<close> and are not empty, are pairwise
  disjoint, cover every row exactly once, differ in size by at most one, and give the extra
  row to exactly the workers with \<open>w < m mod W\<close>.
\<close>

theorem partition_ranges:
  assumes W: "1 \<le> W" "W \<le> m" and p: "partition m W junk = (start, endv)"
  shows "start 0 = 0 \<and> endv (W - 1) = m - 1
    \<and> (\<forall>w. 0 \<le> w \<and> w < W - 1 \<longrightarrow> start (w + 1) = endv w + 1)
    \<and> (\<forall>w. 0 \<le> w \<and> w < W \<longrightarrow> 0 \<le> start w \<and> start w \<le> endv w \<and> endv w \<le> m - 1)
    \<and> (\<forall>w v. 0 \<le> w \<and> w < v \<and> v < W \<longrightarrow> endv w < start v)
    \<and> (\<forall>i. 0 \<le> i \<and> i < m \<longrightarrow> (\<exists>!w. 0 \<le> w \<and> w < W \<and> start w \<le> i \<and> i \<le> endv w))
    \<and> (\<forall>w v. 0 \<le> w \<and> w < W \<and> 0 \<le> v \<and> v < W \<longrightarrow>
          \<bar>(endv w - start w + 1) - (endv v - start v + 1)\<bar> \<le> 1)
    \<and> (\<forall>w. 0 \<le> w \<and> w < W \<longrightarrow>
          endv w - start w + 1 = m div W + (if w < m mod W then 1 else 0))"
proof -
  note props = partition_props [OF W p]
  show ?thesis
  proof (intro conjI allI impI)
    show "start 0 = 0" by (rule props(1))
    show "endv (W - 1) = m - 1" by (rule props(2))
    show "start (w + 1) = endv w + 1" if "0 \<le> w \<and> w < W - 1" for w
      using props(3) [of w] that by simp
    show "0 \<le> start w" if "0 \<le> w \<and> w < W" for w using props(4) [of w] that by simp
    show "start w \<le> endv w" if "0 \<le> w \<and> w < W" for w using props(4) [of w] that by simp
    show "endv w \<le> m - 1" if "0 \<le> w \<and> w < W" for w using props(4) [of w] that by simp
    show "endv w < start v" if "0 \<le> w \<and> w < v \<and> v < W" for w v
      using props(5) [of w v] that by simp
    show "\<exists>!w. 0 \<le> w \<and> w < W \<and> start w \<le> i \<and> i \<le> endv w" if "0 \<le> i \<and> i < m" for i
      using props(6) [of i] that by simp
    show "\<bar>(endv w - start w + 1) - (endv v - start v + 1)\<bar> \<le> 1"
      if "0 \<le> w \<and> w < W \<and> 0 \<le> v \<and> v < W" for w v
      using props(7) [of w v] that by simp
    show "endv w - start w + 1 = m div W + (if w < m mod W then 1 else 0)" if "0 \<le> w \<and> w < W" for w
      using props(8) [of w] that by simp
  qed
qed

theorem partition_ranges_witness:
  "(1::int) \<le> 3 \<and> (3::int) \<le> 7
   \<and> fst (partition 7 3 (\<lambda>_. 0, \<lambda>_. 0)) 0 = 0
   \<and> snd (partition 7 3 (\<lambda>_. 0, \<lambda>_. 0)) (3 - 1) = 7 - 1
   \<and> map (fst (partition 7 3 (\<lambda>_. 0, \<lambda>_. 0))) [0, 1, 2] = [0, 3, 5]
   \<and> map (snd (partition 7 3 (\<lambda>_. 0, \<lambda>_. 0))) [0, 1, 2] = [2, 4, 6]"
proof -
  have h: "(1::int) \<le> 3" "(3::int) \<le> 7" by simp_all
  have ev: "map (fst (partition 7 3 (\<lambda>_. 0, \<lambda>_. 0))) [0, 1, 2] = [0, 3, 5]"
    "map (snd (partition 7 3 (\<lambda>_. 0, \<lambda>_. 0))) [0, 1, 2] = [2, 4, 6]"
    by (simp_all add: partition_def partition_loop.simps c_div_def c_rem_def)
  from partition_ranges [OF h prod.collapse [symmetric], of "(\<lambda>_. 0, \<lambda>_. 0)"]
  have "fst (partition 7 3 (\<lambda>_. 0, \<lambda>_. 0)) 0 = 0
      \<and> snd (partition 7 3 (\<lambda>_. 0, \<lambda>_. 0)) (3 - 1) = 7 - 1"
    by blast
  with h ev show ?thesis by blast
qed

section \<open>Properties of the sweep\<close>

lemma lo_le: "0 \<le> start w \<Longrightarrow> start w \<le> endv w \<Longrightarrow> lo start w \<le> endv w + 1"
  by (simp add: lo_def MAX_macro_def)

lemma lo_ge1: "1 \<le> lo start w"
  by (simp add: lo_def MAX_macro_def)

lemma enter_column_ok:
  assumes "1 \<le> j" "j \<le> n" "0 \<le> start w" "start w \<le> endv w"
  shows "pc_ok n nthread start endv w (enter_column n start w j)"
  using assms lo_le [of start w endv]
  by (simp add: pc_ok_def enter_column_def lo_def [symmetric])

lemma thread_step_pc_other: "w \<noteq> a \<Longrightarrow> pc (thread_step m n nthread start endv a s) w = pc s w"
  by (simp add: thread_step_def split: prod.split loc.split)

lemma thread_step_pc_ok:
  assumes "pc_ok n nthread start endv a (pc s a)" "0 \<le> start a" "start a \<le> endv a"
  shows "pc_ok n nthread start endv a (pc (thread_step m n nthread start endv a s) a)"
proof (cases "pc s a")
  case (Pair j l)
  have ec: "pc_ok n nthread start endv a (enter_column n start a (j + 1))" if "l \<noteq> Done"
    using assms that Pair by (intro enter_column_ok) (auto simp: pc_ok_def)
  show ?thesis
  proof (cases l)
    case (Compute i)
    then show ?thesis using assms Pair ec lo_le [of start a endv]
      by (auto simp: thread_step_def pc_ok_def)
  next
    case Publish
    then show ?thesis using assms Pair ec by (simp add: thread_step_def)
  qed (use assms Pair lo_le [of start a endv] in \<open>auto simp: thread_step_def pc_ok_def lo_def [symmetric]\<close>)
qed

lemma sched_step_out: "\<not> (0 \<le> a \<and> a < nthread) \<Longrightarrow> sched_step m n nthread start endv a s = s"
  unfolding sched_step_def by (rule if_not_P)

lemma sched_step_in: "0 \<le> a \<and> a < nthread \<Longrightarrow> sched_step m n nthread start endv a s = thread_step m n nthread start endv a s"
  unfolding sched_step_def by (rule if_P)

lemma inv_pc_step:
  assumes "inv_pc n nthread start endv s" "strips m nthread start endv"
  shows "inv_pc n nthread start endv (sched_step m n nthread start endv a s)"
  unfolding inv_pc_def
proof (intro allI impI)
  fix w assume w: "0 \<le> w \<and> w < nthread"
  show "pc_ok n nthread start endv w (pc (sched_step m n nthread start endv a s) w)"
  proof (cases "0 \<le> a \<and> a < nthread")
    case False
    then have "sched_step m n nthread start endv a s = s" by (rule sched_step_out)
    then show ?thesis using assms w by (simp add: inv_pc_def)
  next
    case True
    then have sa: "0 \<le> start a" "start a \<le> endv a" using assms(2) by (simp_all add: strips_def)
    show ?thesis
    proof (cases "w = a")
      case True
      then show ?thesis using thread_step_pc_ok [of n nthread start endv a s m] sa assms(1) w
        by (simp add: sched_step_in [OF \<open>0 \<le> a \<and> a < nthread\<close>] inv_pc_def)
    next
      case False
      then show ?thesis using assms(1) w by (simp add: sched_step_in [OF \<open>0 \<le> a \<and> a < nthread\<close>] thread_step_pc_other inv_pc_def)
    qed
  qed
qed

lemma step_Wait:
  "pc s a = (j, Wait) \<Longrightarrow> thread_step m n nthread start endv a s =
     (if flag s (a - 1) = 0 then s else s\<lparr>pc := (pc s)(a := (j, Clear))\<rparr>)"
  by (simp add: thread_step_def)

lemma step_Clear:
  "pc s a = (j, Clear) \<Longrightarrow> thread_step m n nthread start endv a s =
     s\<lparr>flag := (flag s)(a - 1 := 0), pc := (pc s)(a := (j, Compute (lo start a)))\<rparr>"
  by (simp add: thread_step_def lo_def)

lemma step_Compute_body:
  "pc s a = (j, Compute i) \<Longrightarrow> i \<le> endv a \<Longrightarrow> thread_step m n nthread start endv a s =
     s\<lparr>vector := (vector s)(ARRAY m i j := stencil m (vector s) i j),
       pc := (pc s)(a := (j, Compute (i + 1)))\<rparr>"
  by (simp add: thread_step_def)

lemma step_Compute_exit:
  "pc s a = (j, Compute i) \<Longrightarrow> \<not> i \<le> endv a \<Longrightarrow> thread_step m n nthread start endv a s =
     s\<lparr>pc := (pc s)(a := (if a < nthread - 1 then (j, PubWait) else enter_column n start a (j + 1)))\<rparr>"
  by (simp add: thread_step_def)

lemma step_PubWait:
  "pc s a = (j, PubWait) \<Longrightarrow> thread_step m n nthread start endv a s =
     (if flag s a = 1 then s else s\<lparr>pc := (pc s)(a := (j, Publish))\<rparr>)"
  by (simp add: thread_step_def)

lemma step_Publish:
  "pc s a = (j, Publish) \<Longrightarrow> thread_step m n nthread start endv a s =
     s\<lparr>flag := (flag s)(a := 1), pc := (pc s)(a := enter_column n start a (j + 1))\<rparr>"
  by (simp add: thread_step_def)

lemma step_Done:
  "pc s a = (j, Done) \<Longrightarrow> thread_step m n nthread start endv a s = s"
  by (simp add: thread_step_def)

lemmas step_simps = step_Wait step_Clear step_Compute_body step_Compute_exit step_PubWait
  step_Publish step_Done

lemma consumed_enter_column: "0 < a \<Longrightarrow> consumed (enter_column n start a j) = j - 1"
  by (simp add: enter_column_def)

lemma fst_enter_column: "fst (enter_column n start a j) = j"
  by (simp add: enter_column_def)

lemma snd_enter_column_neq: "snd (enter_column n start a j) \<noteq> Clear" "snd (enter_column n start a j) \<noteq> Publish"
  by (simp_all add: enter_column_def)

lemma flag_ok_step:
  assumes w: "0 \<le> w" "w < nthread - 1" and a: "0 \<le> a" "a < nthread"
    and ok: "flag_ok s w"
    and pa: "pc_ok n nthread start endv a (pc s a)"
  shows "flag_ok (thread_step m n nthread start endv a s) w"
proof (cases "pc s a")
  case (Pair j l)
  consider "a = w" | "a = w + 1" | "a \<noteq> w" "a \<noteq> w + 1" by blast
  then show ?thesis
  proof cases
    case 1
    show ?thesis
    proof (cases l)
      case (Compute i)
      then show ?thesis using ok Pair 1 w
        by (cases "i \<le> endv a") (auto simp: step_simps flag_ok_def)
    next
      case Publish
      then show ?thesis using ok Pair 1 w
        by (auto simp: step_simps flag_ok_def fst_enter_column snd_enter_column_neq)
    qed (use ok Pair 1 w pa in \<open>auto simp: step_simps flag_ok_def pc_ok_def\<close>)
  next
    case 2
    then have a0: "0 < a" using w by simp
    show ?thesis
    proof (cases l)
      case (Compute i)
      then show ?thesis using ok Pair 2 w a0 pa
        by (cases "i \<le> endv a")
          (auto simp: step_simps flag_ok_def consumed_enter_column snd_enter_column_neq)
    next
      case Publish
      then show ?thesis using ok Pair 2 w a0 pa
        by (auto simp: step_simps flag_ok_def consumed_enter_column snd_enter_column_neq)
    qed (use ok Pair 2 w pa in \<open>auto simp: step_simps flag_ok_def pc_ok_def\<close>)
  next
    case 3
    then have "pc (thread_step m n nthread start endv a s) w = pc s w"
      "pc (thread_step m n nthread start endv a s) (w + 1) = pc s (w + 1)"
      by (simp_all add: thread_step_pc_other)
    moreover have "flag (thread_step m n nthread start endv a s) w = flag s w"
      using 3 by (simp add: thread_step_def split: prod.split loc.split)
    ultimately show ?thesis using ok unfolding flag_ok_def by auto
  qed
qed

lemma inv_flag_step:
  assumes "inv_flag nthread s" "inv_pc n nthread start endv s"
  shows "inv_flag nthread (sched_step m n nthread start endv a s)"
proof (cases "0 \<le> a \<and> a < nthread")
  case False
  then show ?thesis using assms(1) by (simp add: sched_step_out)
next
  case True
  then have pa: "pc_ok n nthread start endv a (pc s a)" using assms(2) by (simp add: inv_pc_def)
  show ?thesis
    unfolding inv_flag_def sched_step_in [OF True]
  proof (intro allI impI)
    fix w assume w: "0 \<le> w \<and> w < nthread - 1"
    then have "flag_ok s w" using assms(1) by (simp add: inv_flag_def)
    then show "flag_ok (thread_step m n nthread start endv a s) w"
      using flag_ok_step [of w nthread a s n start endv m] w True pa by simp
  qed
qed

lemma ARRAY_inj:
  assumes "ARRAY m i j = ARRAY m i' j'" "0 \<le> i" "i < m" "0 \<le> i'" "i' < m"
  shows "i = i' \<and> j = j'"
proof -
  have e: "i - i' = (j' - j) * m" using assms(1) by (simp add: ARRAY_def algebra_simps)
  have "j' - j = 0"
  proof (rule ccontr)
    assume "j' - j \<noteq> 0"
    then have "1 \<le> \<bar>j' - j\<bar>" by simp
    then have "m \<le> \<bar>j' - j\<bar> * m" using assms by (simp add: mult_le_cancel_right1)
    also have "\<dots> = \<bar>i - i'\<bar>" using e assms by (simp add: abs_mult)
    finally show False using assms by simp
  qed
  then show ?thesis using e by simp
qed

lemma computed_rows:
  assumes "strips m nthread start endv" "0 \<le> w" "w < nthread" "computed start endv w t i j"
  shows "1 \<le> i" "i < m" "1 \<le> j"
  using assms lo_ge1 [of start w] by (auto simp: strips_def computed_def)

lemma cell_value_stencil:
  "1 \<le> i \<Longrightarrow> 1 \<le> j \<Longrightarrow>
     cell_value c (i - 1) j + cell_value c i (j - 1) - cell_value c (i - 1) (j - 1) = cell_value c i j"
  by (simp add: cell_value_def)

text \<open>Reading a cell that is on the boundary or already computed.\<close>

lemma read_cell:
  assumes st: "strips m nthread start endv" and sd: "seeded m n G"
    and inv: "inv_grid m nthread start endv G s"
    and i: "0 \<le> i" "i < m" and j: "0 \<le> j" "j < n"
    and av: "i = 0 \<or> j = 0 \<or> computed_any nthread start endv s i j"
  shows "vector s (ARRAY m i j) = cell_value (G (ARRAY m 0 0)) i j"
proof (cases "computed_any nthread start endv s i j")
  case True
  then show ?thesis using inv by (simp add: inv_grid_def)
next
  case False
  with av have b: "i = 0 \<or> j = 0" by simp
  have "vector s (ARRAY m i j) = G (ARRAY m i j)"
  proof -
    have "ARRAY m i j \<noteq> ARRAY m i' j'" if c: "computed_any nthread start endv s i' j'" for i' j'
    proof
      assume e: "ARRAY m i j = ARRAY m i' j'"
      from c obtain w where w: "0 \<le> w" "w < nthread" "computed start endv w (pc s w) i' j'"
        by (auto simp: computed_any_def)
      note r = computed_rows [OF st w]
      from ARRAY_inj [OF e i] r have "i = i' \<and> j = j'" by simp
      with b r show False by simp
    qed
    then show ?thesis using inv by (simp add: inv_grid_def)
  qed
  also have "\<dots> = cell_value (G (ARRAY m 0 0)) i j"
    using b sd i j by (auto simp: seeded_def cell_value_def)
  finally show ?thesis .
qed

lemma strips_next:
  assumes "strips m nthread start endv" "0 < a" "a < nthread"
  shows "start a = endv (a - 1) + 1"
proof -
  from assms(1) have "\<forall>w. 0 \<le> w \<and> w < nthread - 1 \<longrightarrow> start (w + 1) = endv w + 1"
    by (simp add: strips_def)
  from this [rule_format, of "a - 1"] assms(2,3) show ?thesis by simp
qed

lemma strips_bounds:
  assumes "strips m nthread start endv" "0 \<le> a" "a < nthread"
  shows "0 \<le> start a" "start a \<le> endv a" "endv a \<le> m - 1"
  using assms by (simp_all add: strips_def)

lemma upper_row_available:
  assumes st: "strips m nthread start endv"
    and fl: "inv_flag nthread s"
    and a: "0 \<le> a" "a < nthread"
    and pa: "pc s a = (j, Compute i)" "lo start a \<le> i" "i \<le> endv a"
    and j': "1 \<le> j'" "j' \<le> j"
  shows "i - 1 = 0 \<or> computed_any nthread start endv s (i - 1) j'"
proof (cases "lo start a \<le> i - 1")
  case True
  then have "computed start endv a (pc s a) (i - 1) j'"
    using pa j' by (auto simp: computed_def)
  then show ?thesis using a by (auto simp: computed_any_def)
next
  case False
  then have il: "i = lo start a" using pa by simp
  show ?thesis
  proof (cases "i = 1")
    case True
    then show ?thesis by simp
  next
    case False
    then have s2: "start a = i" "2 \<le> i" using il lo_ge1 [of start a]
      by (auto simp: lo_def MAX_macro_def split: if_splits)
    have a0: "a \<noteq> 0" using s2 st by (auto simp: strips_def)
    then have b: "0 \<le> a - 1" "a - 1 < nthread - 1" "a - 1 < nthread" using a by simp_all
    have "start a = endv (a - 1) + 1" using strips_next [OF st, of a] a0 a by simp
    then have e: "endv (a - 1) = i - 1" using s2 by simp
    have sb: "start (a - 1) \<le> endv (a - 1)" using strips_bounds [OF st, of "a - 1"] b by simp
    have lb: "lo start (a - 1) \<le> i - 1" using sb e s2 by (simp add: lo_def MAX_macro_def)
    have "flag_ok s (a - 1)" using fl b by (simp add: inv_flag_def)
    then have "j < fst (pc s (a - 1))" using pa by (auto simp: flag_ok_def)
    then have "computed start endv (a - 1) (pc s (a - 1)) (i - 1) j'"
      using lb e j' by (simp add: computed_def)
    then show ?thesis using b by (auto simp: computed_any_def)
  qed
qed

lemma own_row_available:
  assumes a: "0 \<le> a" "a < nthread"
    and pa: "pc s a = (j, Compute i)" "lo start a \<le> i" "i \<le> endv a"
    and j': "1 \<le> j'" "j' < j"
  shows "computed_any nthread start endv s i j'"
proof -
  have "computed start endv a (pc s a) i j'" using pa j' by (simp add: computed_def)
  then show ?thesis using a by (auto simp: computed_any_def)
qed

lemma stencil_value:
  assumes st: "strips m nthread start endv" and sd: "seeded m n G"
    and ig: "inv_grid m nthread start endv G s" and fl: "inv_flag nthread s"
    and a: "0 \<le> a" "a < nthread"
    and pa: "pc s a = (j, Compute i)" "lo start a \<le> i" "i \<le> endv a" "1 \<le> j" "j < n"
  shows "stencil m (vector s) i j = cell_value (G (ARRAY m 0 0)) i j"
proof -
  let ?c = "G (ARRAY m 0 0)"
  have i: "1 \<le> i" "i < m" using pa lo_ge1 [of start a] strips_bounds [OF st, of a] a by simp_all
  have up: "i - 1 = 0 \<or> computed_any nthread start endv s (i - 1) j'" if "1 \<le> j'" "j' \<le> j" for j'
    using upper_row_available [of m nthread start endv s a j i j', OF st fl a pa(1-3) that] .
  have own: "j - 1 = 0 \<or> computed_any nthread start endv s i (j - 1)"
  proof (cases "j = 1")
    case False
    then have "1 \<le> j - 1" "j - 1 < j" using pa by simp_all
    from own_row_available [of a nthread s j i start endv "j - 1", OF a pa(1-3) this]
    show ?thesis by simp
  qed simp
  have up1: "i - 1 = 0 \<or> j - 1 = 0 \<or> computed_any nthread start endv s (i - 1) (j - 1)"
  proof (cases "j = 1")
    case False
    then have "1 \<le> j - 1" "j - 1 \<le> j" using pa by simp_all
    from up [OF this] show ?thesis by blast
  qed simp
  have r1: "vector s (ARRAY m (i - 1) j) = cell_value ?c (i - 1) j"
  proof (rule read_cell [OF st sd ig])
    show "i - 1 = 0 \<or> j = 0 \<or> computed_any nthread start endv s (i - 1) j"
      using up [of j] pa by blast
  qed (use i pa in simp_all)
  have r2: "vector s (ARRAY m i (j - 1)) = cell_value ?c i (j - 1)"
  proof (rule read_cell [OF st sd ig])
    show "i = 0 \<or> j - 1 = 0 \<or> computed_any nthread start endv s i (j - 1)"
      using own by blast
  qed (use i pa in simp_all)
  have r3: "vector s (ARRAY m (i - 1) (j - 1)) = cell_value ?c (i - 1) (j - 1)"
  proof (rule read_cell [OF st sd ig])
    show "i - 1 = 0 \<or> j - 1 = 0 \<or> computed_any nthread start endv s (i - 1) (j - 1)"
      by (rule up1)
  qed (use i pa in simp_all)
  show ?thesis
    unfolding stencil_def r1 r2 r3 by (rule cell_value_stencil) (use i pa in simp_all)
qed

lemma vector_unchanged:
  "\<not> body_step endv s a (case snd (pc s a) of Compute i \<Rightarrow> i | _ \<Rightarrow> 0) (fst (pc s a))
     \<Longrightarrow> vector (thread_step m n nthread start endv a s) = vector s"
  by (auto simp: thread_step_def body_step_def split: prod.split loc.split)

lemma computed_after_step:
  assumes pa: "pc_ok n nthread start endv a (pc s a)"
  shows "computed start endv a (pc (thread_step m n nthread start endv a s) a) i' j' \<longleftrightarrow>
         computed start endv a (pc s a) i' j' \<or> (body_step endv s a i' j' \<and> 1 \<le> j')"
proof (cases "pc s a")
  case (Pair j l)
  show ?thesis
  proof (cases l)
    case (Compute i)
    show ?thesis
    proof (cases "i \<le> endv a")
      case True
      then show ?thesis using Pair Compute pa
        by (auto simp: step_simps computed_def body_step_def pc_ok_def)
    next
      case False
      then show ?thesis using Pair Compute pa
        by (auto simp: step_simps computed_def body_step_def pc_ok_def enter_column_def lo_def [symmetric])
    qed
  qed (use Pair pa in \<open>auto simp: step_simps computed_def body_step_def pc_ok_def enter_column_def lo_def [symmetric]\<close>)
qed

lemma computed_any_after_step:
  assumes pa: "pc_ok n nthread start endv a (pc s a)" and a: "0 \<le> a" "a < nthread"
  shows "computed_any nthread start endv (thread_step m n nthread start endv a s) i' j' \<longleftrightarrow>
         computed_any nthread start endv s i' j' \<or> (body_step endv s a i' j' \<and> 1 \<le> j')"
    (is "?L \<longleftrightarrow> ?R")
proof
  assume ?L
  then obtain w where w: "0 \<le> w" "w < nthread"
    "computed start endv w (pc (thread_step m n nthread start endv a s) w) i' j'"
    by (auto simp: computed_any_def)
  show ?R
  proof (cases "w = a")
    case True
    with w computed_after_step [OF pa, of m i' j'] a show ?thesis
      by (auto simp: computed_any_def)
  next
    case False
    with w show ?thesis by (auto simp: computed_any_def thread_step_pc_other)
  qed
next
  assume ?R
  then show ?L
  proof
    assume "computed_any nthread start endv s i' j'"
    then obtain w where w: "0 \<le> w" "w < nthread" "computed start endv w (pc s w) i' j'"
      by (auto simp: computed_any_def)
    show ?L
    proof (cases "w = a")
      case True
      with w computed_after_step [OF pa, of m i' j'] show ?thesis
        by (auto simp: computed_any_def)
    next
      case False
      with w show ?thesis by (auto simp: computed_any_def thread_step_pc_other)
    qed
  next
    assume "body_step endv s a i' j' \<and> 1 \<le> j'"
    with computed_after_step [OF pa, of m i' j'] a show ?L
      by (auto simp: computed_any_def)
  qed
qed

lemma inv_grid_step:
  assumes st: "strips m nthread start endv" and sd: "seeded m n G"
    and ip: "inv_pc n nthread start endv s" and fl: "inv_flag nthread s"
    and ig: "inv_grid m nthread start endv G s"
    and a: "0 \<le> a" "a < nthread"
  shows "inv_grid m nthread start endv G (thread_step m n nthread start endv a s)"
proof -
  let ?s' = "thread_step m n nthread start endv a s"
  let ?c = "G (ARRAY m 0 0)"
  have pa: "pc_ok n nthread start endv a (pc s a)" using ip a by (simp add: inv_pc_def)
  note ca = computed_any_after_step [OF pa a, of m]
  show ?thesis
  proof (cases "\<exists>i j. body_step endv s a i j")
    case False
    then have v: "vector ?s' = vector s" by (intro vector_unchanged) blast
    have "computed_any nthread start endv ?s' i' j' = computed_any nthread start endv s i' j'" for i' j'
      using ca [of i' j'] False by blast
    then show ?thesis using ig v by (simp add: inv_grid_def)
  next
    case True
    then obtain i j where b: "pc s a = (j, Compute i)" "i \<le> endv a" by (auto simp: body_step_def)
    have bs: "body_step endv s a i' j' \<longleftrightarrow> i' = i \<and> j' = j" for i' j'
      using b by (auto simp: body_step_def)
    have pj: "1 \<le> j" "j < n" "lo start a \<le> i" using pa b by (auto simp: pc_ok_def)
    have i: "1 \<le> i" "i < m" using pj b lo_ge1 [of start a] strips_bounds [OF st, of a] a by simp_all
    have sv: "stencil m (vector s) i j = cell_value ?c i j"
      by (rule stencil_value [OF st sd ig fl a b(1) pj(3) b(2) pj(1,2)])
    have v: "vector ?s' = (vector s)(ARRAY m i j := cell_value ?c i j)"
      using b sv by (simp add: step_simps)
    have g1: "vector ?s' (ARRAY m i' j') = cell_value ?c i' j'"
      if c: "computed_any nthread start endv ?s' i' j'" for i' j'
    proof (cases "i' = i \<and> j' = j")
      case True
      then show ?thesis by (simp add: v)
    next
      case False
      then have old: "computed_any nthread start endv s i' j'" using c ca [of i' j'] bs by blast
      then obtain w where w: "0 \<le> w" "w < nthread" "computed start endv w (pc s w) i' j'"
        by (auto simp: computed_any_def)
      note r = computed_rows [OF st w]
      have "ARRAY m i' j' \<noteq> ARRAY m i j"
        using ARRAY_inj [of m i' j' i j] r i False by auto
      then show ?thesis using old ig by (simp add: v inv_grid_def)
    qed
    have g2: "vector ?s' k = G k"
      if nk: "\<forall>i' j'. computed_any nthread start endv ?s' i' j' \<longrightarrow> k \<noteq> ARRAY m i' j'" for k
    proof -
      have "computed_any nthread start endv ?s' i j" using ca [of i j] bs pj by blast
      then have ne: "k \<noteq> ARRAY m i j" using nk by blast
      have "\<forall>i' j'. computed_any nthread start endv s i' j' \<longrightarrow> k \<noteq> ARRAY m i' j'"
        using nk ca by blast
      then have "vector s k = G k" using ig by (simp add: inv_grid_def)
      then show ?thesis using ne by (simp add: v)
    qed
    show ?thesis unfolding inv_grid_def using g1 g2 by blast
  qed
qed

lemma inv_sched_step:
  assumes st: "strips m nthread start endv" and sd: "seeded m n G"
    and i: "inv m n nthread start endv G s"
  shows "inv m n nthread start endv G (sched_step m n nthread start endv a s)"
proof -
  from i have ip: "inv_pc n nthread start endv s" and fl: "inv_flag nthread s"
    and ig: "inv_grid m nthread start endv G s" by (simp_all add: inv_def)
  have "inv_grid m nthread start endv G (sched_step m n nthread start endv a s)"
  proof (cases "0 \<le> a \<and> a < nthread")
    case True
    then show ?thesis using inv_grid_step [OF st sd ip fl ig, of a] by (simp add: sched_step_in)
  next
    case False
    then show ?thesis using ig by (simp add: sched_step_out)
  qed
  then show ?thesis using inv_pc_step [OF ip st, of a] inv_flag_step [OF fl ip, of m a]
    by (simp add: inv_def)
qed

lemma inv_run_schedule:
  assumes st: "strips m nthread start endv" and sd: "seeded m n G"
  shows "inv m n nthread start endv G s \<Longrightarrow>
         inv m n nthread start endv G (run_schedule m n nthread start endv sched s)"
  unfolding run_schedule_def
proof (induction sched arbitrary: s)
  case Nil
  then show ?case by simp
next
  case (Cons a sched)
  from Cons.IH [OF inv_sched_step [OF st sd Cons.prems, of a]] show ?case by simp
qed

lemma not_computed_at_entry:
  "\<not> computed start endv w (enter_column n start w 1) i j"
  by (auto simp: computed_def enter_column_def lo_def)

lemma inv_start:
  assumes st: "strips m nthread start endv" and n: "1 \<le> n"
  shows "inv m n nthread start endv g (sweep_start n nthread start g f)"
proof -
  let ?s = "sweep_start n nthread start g f"
  have p: "pc ?s w = enter_column n start w 1" for w by (simp add: sweep_start_def)
  have 1: "inv_pc n nthread start endv ?s"
    unfolding inv_pc_def p
    using strips_bounds [OF st] n by (auto intro!: enter_column_ok)
  have 2: "inv_flag nthread ?s"
    unfolding inv_flag_def flag_ok_def p
    by (auto simp: sweep_start_def reset_flags_def fst_enter_column consumed_enter_column
        snd_enter_column_neq)
  have "\<not> computed_any nthread start endv ?s i j" for i j
    by (simp add: computed_any_def p not_computed_at_entry)
  then have 3: "inv_grid m nthread start endv g ?s"
    by (simp add: inv_grid_def sweep_start_def)
  from 1 2 3 show ?thesis by (simp add: inv_def)
qed

lemma all_done_iff: "all_done nthread s \<longleftrightarrow> (\<forall>w. 0 \<le> w \<and> w < nthread \<longrightarrow> snd (pc s w) = Done)"
  by (auto simp: all_done_def list_all_iff)

lemma ARRAY_decode:
  assumes "0 < m"
  shows "k = ARRAY m (k mod m) (k div m)" "0 \<le> k mod m" "k mod m < m"
  using assms by (simp_all add: ARRAY_def)

lemma ARRAY_encode:
  assumes "0 \<le> i" "i < m"
  shows "ARRAY m i j mod m = i" "ARRAY m i j div m = j"
  using assms by (simp_all add: ARRAY_def)

lemma done_grid:
  assumes st: "strips m nthread start endv" and sd: "seeded m n G" and m: "1 \<le> m"
    and i: "inv m n nthread start endv G s" and d: "all_done nthread s"
  shows "vector s = swept m n G"
proof
  fix k
  from i have ip: "inv_pc n nthread start endv s" and ig: "inv_grid m nthread start endv G s"
    by (simp_all add: inv_def)
  have fin: "pc s w = (n, Done)" if "0 \<le> w" "w < nthread" for w
  proof -
    have "snd (pc s w) = Done" using d that by (simp add: all_done_iff)
    moreover have "pc_ok n nthread start endv w (pc s w)" using ip that by (simp add: inv_pc_def)
    ultimately show ?thesis by (cases "pc s w") (simp add: pc_ok_def)
  qed
  have ca: "computed_any nthread start endv s i' j' \<longleftrightarrow> 1 \<le> i' \<and> i' < m \<and> 1 \<le> j' \<and> j' < n" for i' j'
  proof
    assume "computed_any nthread start endv s i' j'"
    then obtain w where w: "0 \<le> w" "w < nthread" "computed start endv w (pc s w) i' j'"
      by (auto simp: computed_any_def)
    from computed_rows [OF st w] w(3) fin [OF w(1,2)]
    show "1 \<le> i' \<and> i' < m \<and> 1 \<le> j' \<and> j' < n" by (simp add: computed_def)
  next
    assume r: "1 \<le> i' \<and> i' < m \<and> 1 \<le> j' \<and> j' < n"
    from st have "\<forall>i. 0 \<le> i \<and> i < m \<longrightarrow> (\<exists>w. 0 \<le> w \<and> w < nthread \<and> start w \<le> i \<and> i \<le> endv w)"
      by (simp add: strips_def)
    from this [rule_format, of i'] r obtain w where
      w: "0 \<le> w" "w < nthread" "start w \<le> i'" "i' \<le> endv w" by auto
    have "computed start endv w (pc s w) i' j'"
      using r w fin [OF w(1,2)] by (simp add: computed_def lo_def MAX_macro_def)
    then show "computed_any nthread start endv s i' j'" using w by (auto simp: computed_any_def)
  qed
  have m0: "0 < m" using m by simp
  note dk = ARRAY_decode [OF m0, of k]
  have z: "ARRAY m 0 0 = 0" by (simp add: ARRAY_def)
  show "vector s k = swept m n G k"
  proof (cases "1 \<le> k mod m \<and> 1 \<le> k div m \<and> k div m < n")
    case True
    then have "computed_any nthread start endv s (k mod m) (k div m)" using ca dk by simp
    then have "vector s (ARRAY m (k mod m) (k div m)) = cell_value (G (ARRAY m 0 0)) (k mod m) (k div m)"
      using ig by (simp add: inv_grid_def)
    then show ?thesis using True dk(1) by (simp add: swept_def cell_value_def z)
  next
    case False
    have "k \<noteq> ARRAY m i' j'" if "computed_any nthread start endv s i' j'" for i' j'
    proof
      assume e: "k = ARRAY m i' j'"
      from that ca have r: "1 \<le> i' \<and> i' < m \<and> 1 \<le> j' \<and> j' < n" by simp
      then have "k mod m = i'" "k div m = j'" using ARRAY_encode [of i' m j'] e by simp_all
      with r False show False by simp
    qed
    then have "vector s k = G k" using ig by (simp add: inv_grid_def)
    moreover have "swept m n G k = G k" unfolding swept_def using False by (rule if_not_P)
    ultimately show ?thesis by simp
  qed
qed

lemma sweep_result:
  assumes st: "strips m nthread start endv" and sd: "seeded m n g" and m: "1 \<le> m" and n: "1 \<le> n"
    and sw: "sweep m n nthread start endv sched (g, f) = Some (g', f')"
  shows "g' = swept m n g"
proof -
  let ?s = "run_schedule m n nthread start endv sched (sweep_start n nthread start g f)"
  from sw have d: "all_done nthread ?s" and g': "g' = vector ?s"
    by (auto simp: sweep_def Let_def split: if_splits)
  have "inv m n nthread start endv g ?s"
    by (rule inv_run_schedule [OF st sd inv_start [OF st n]])
  from done_grid [OF st sd m this d] g' show ?thesis by simp
qed

lemma inv_pcD: "inv_pc n nthread start endv s \<Longrightarrow> 0 \<le> w \<Longrightarrow> w < nthread \<Longrightarrow> pc_ok n nthread start endv w (pc s w)"
  by (simp add: inv_pc_def)

lemma inv_flagD: "inv_flag nthread s \<Longrightarrow> 0 \<le> w \<Longrightarrow> w < nthread - 1 \<Longrightarrow> flag_ok s w"
  by (simp add: inv_flag_def)

lemma can_moveI: "0 \<le> a \<Longrightarrow> a < nthread \<Longrightarrow> \<not> blocked s a \<Longrightarrow> can_move nthread s"
  unfolding can_move_def by blast

lemma left_chain:
  assumes ip: "inv_pc n nthread start endv s" and fl: "inv_flag nthread s"
  shows "0 \<le> w \<Longrightarrow> w < nthread \<Longrightarrow> snd (pc s w) = Wait \<Longrightarrow> flag s (w - 1) = 0 \<Longrightarrow> can_move nthread s"
proof (induction w rule: int_ge_induct)
  case base
  have "pc_ok n nthread start endv 0 (pc s 0)" using inv_pcD [OF ip, of 0] base by simp
  then show ?case using base by (simp add: pc_ok_def)
next
  case (step w)
  have w: "0 \<le> w" "w < nthread - 1" "w < nthread" using step by simp_all
  have f0: "flag s w = 0" using step.prems by simp
  have fo: "flag_ok s w" by (rule inv_flagD [OF fl w(1,2)])
  show ?case
  proof (cases "blocked s w")
    case False
    then show ?thesis by (rule can_moveI [OF w(1,3)])
  next
    case True
    have pw: "pc_ok n nthread start endv (w + 1) (pc s (w + 1))"
      using inv_pcD [OF ip, of "w + 1"] step.prems w by simp
    have pw0: "pc_ok n nthread start endv w (pc s w)" by (rule inv_pcD [OF ip w(1,3)])
    have "fst (pc s w) = fst (pc s (w + 1))"
      using fo f0 step.prems by (cases "pc s (w + 1)") (simp add: flag_ok_def)
    then have nd: "snd (pc s w) \<noteq> Done"
      using pw step.prems pw0 by (auto simp: pc_ok_def)
    from True nd f0 have "snd (pc s w) = Wait \<and> flag s (w - 1) = 0"
      by (auto simp: blocked_def split: loc.splits)
    then show ?thesis using step.IH w by simp
  qed
qed

lemma right_chain:
  assumes ip: "inv_pc n nthread start endv s" and fl: "inv_flag nthread s"
  shows "w \<le> nthread - 1 \<Longrightarrow> 0 \<le> w \<Longrightarrow> snd (pc s w) = PubWait \<Longrightarrow> flag s w = 1 \<Longrightarrow> can_move nthread s"
proof (induction w rule: int_le_induct)
  case base
  have "pc_ok n nthread start endv (nthread - 1) (pc s (nthread - 1))"
    using inv_pcD [OF ip, of "nthread - 1"] base by simp
  then show ?case using base by (simp add: pc_ok_def)
next
  case (step w)
  have w: "0 \<le> w" "w < nthread" "0 \<le> w - 1" "w - 1 < nthread - 1" using step by simp_all
  have f1: "flag s (w - 1) = 1" using step.prems by simp
  show ?case
  proof (cases "blocked s w")
    case False
    then show ?thesis by (rule can_moveI [OF w(1,2)])
  next
    case True
    have fo: "flag_ok s (w - 1)" by (rule inv_flagD [OF fl w(3,4)])
    have pw: "pc_ok n nthread start endv w (pc s w)" "pc_ok n nthread start endv (w - 1) (pc s (w - 1))"
      using inv_pcD [OF ip w(1,2)] inv_pcD [OF ip, of "w - 1"] w by simp_all
    have nd: "snd (pc s w) \<noteq> Done"
    proof
      assume d: "snd (pc s w) = Done"
      then have "pc s w = (n, Done)" using pw(1) by (cases "pc s w") (simp add: pc_ok_def)
      then have "fst (pc s (w - 1)) = n + 1" using fo f1 by (simp add: flag_ok_def)
      then show False using pw(2) by (simp add: pc_ok_def)
    qed
    from True nd f1 have "snd (pc s w) = PubWait \<and> flag s w = 1"
      by (auto simp: blocked_def split: loc.splits)
    then show ?thesis using step.IH w by simp
  qed
qed

lemma progress:
  assumes ip: "inv_pc n nthread start endv s" and fl: "inv_flag nthread s"
    and nd: "\<not> all_done nthread s"
  shows "can_move nthread s"
proof -
  from nd obtain w where w: "0 \<le> w" "w < nthread" "snd (pc s w) \<noteq> Done"
    by (auto simp: all_done_iff)
  show ?thesis
  proof (cases "blocked s w")
    case False
    then show ?thesis by (rule can_moveI [OF w(1,2)])
  next
    case True
    with w(3) consider "snd (pc s w) = Wait" "flag s (w - 1) = 0" | "snd (pc s w) = PubWait" "flag s w = 1"
      by (auto simp: blocked_def split: loc.splits)
    then show ?thesis
    proof cases
      case 1
      then show ?thesis using left_chain [OF ip fl, of w] w by simp
    next
      case 2
      then show ?thesis using right_chain [OF ip fl, of w] w by simp
    qed
  qed
qed

lemma rank_same_column: "rank n start endv w (j, l) = (n - j) * (rows start endv w + 5) - pos start endv w l"
  by (simp add: rank_def)

lemma rank_next_column:
  assumes r: "0 \<le> rows start endv w" and j: "j < n"
  shows "rank n start endv w (enter_column n start w (j + 1)) \<le> (n - (j + 1)) * (rows start endv w + 5)"
    "0 \<le> rank n start endv w (enter_column n start w (j + 1))"
proof -
  define R where "R = rows start endv w + 5"
  define Y where "Y = (n - (j + 2)) * R"
  have R: "5 \<le> R" using r by (simp add: R_def)
  have e: "(n - (j + 1)) * R = Y + R" by (simp add: Y_def algebra_simps)
  have Y: "0 \<le> Y" if "j + 1 < n"
    unfolding Y_def using that R by (intro mult_nonneg_nonneg) simp_all
  show "rank n start endv w (enter_column n start w (j + 1)) \<le> (n - (j + 1)) * (rows start endv w + 5)"
    by (simp add: rank_def enter_column_def lo_def)
  show "0 \<le> rank n start endv w (enter_column n start w (j + 1))"
  proof (cases "j + 1 < n")
    case True
    then have "enter_column n start w (j + 1) = (j + 1, if w > 0 then Wait else Compute (lo start w))"
      by (simp add: enter_column_def lo_def)
    then have "rank n start endv w (enter_column n start w (j + 1)) = Y + R - (if w > 0 then 0 else 2)"
      using e by (simp add: rank_same_column R_def [symmetric])
    then show ?thesis using Y [OF True] R by simp
  next
    case False
    then have "j + 1 = n" using j by simp
    then show ?thesis by (simp add: rank_def enter_column_def)
  qed
qed

lemma rank_step:
  assumes pa: "pc_ok n nthread start endv a (pc s a)" and r: "0 \<le> rows start endv a"
    and nb: "\<not> blocked s a"
  shows "0 \<le> rank n start endv a (pc (thread_step m n nthread start endv a s) a)
       \<and> rank n start endv a (pc (thread_step m n nthread start endv a s) a) < rank n start endv a (pc s a)"
proof (cases "pc s a")
  case (Pair j l)
  define R where "R = rows start endv a + 5"
  define X where "X = (n - (j + 1)) * R"
  define L where "L = rows start endv a"
  let ?s' = "thread_step m n nthread start endv a s"
  have R: "R = L + 5" "0 \<le> L" using r by (simp_all add: R_def L_def)
  have nd: "l \<noteq> Done" using nb Pair by (auto simp: blocked_def)
  then have j: "1 \<le> j" "j < n" using pa Pair by (auto simp: pc_ok_def)
  have e: "(n - j) * R = X + R" by (simp add: X_def algebra_simps)
  have X: "0 \<le> X" unfolding X_def using j R by (intro mult_nonneg_nonneg) simp_all
  have rk: "rank n start endv a (j, l') = X + R - pos start endv a l'" for l'
    using e by (simp add: rank_same_column R_def [symmetric])
  have nx: "rank n start endv a (enter_column n start a (j + 1)) \<le> X"
    "0 \<le> rank n start endv a (enter_column n start a (j + 1))"
    using rank_next_column [OF r j(2)] by (simp_all add: X_def R_def)
  have old: "rank n start endv a (pc s a) = X + R - pos start endv a l" using Pair rk by simp
  show ?thesis
  proof (cases l)
    case Wait
    then have "pc ?s' a = (j, Clear)" using Pair nb by (simp add: step_simps blocked_def)
    then show ?thesis using old Wait rk [of Clear] X R by simp
  next
    case Clear
    then have "pc ?s' a = (j, Compute (lo start a))" using Pair by (simp add: step_simps)
    then show ?thesis using old Clear rk [of "Compute (lo start a)"] X R by simp
  next
    case (Compute i)
    then have i: "lo start a \<le> i" "i \<le> endv a + 1" using pa Pair by (simp_all add: pc_ok_def)
    have pi: "pos start endv a (Compute i) = 2 + (i - lo start a)" by simp
    show ?thesis
    proof (cases "i \<le> endv a")
      case True
      then have "pc ?s' a = (j, Compute (i + 1))" using Pair Compute by (simp add: step_simps)
      moreover have "i - lo start a < L" using True by (simp add: L_def rows_def)
      ultimately show ?thesis using old Compute rk [of "Compute (i + 1)"] X R i by simp
    next
      case False
      then have il: "i - lo start a = L" using i by (simp add: L_def rows_def)
      show ?thesis
      proof (cases "a < nthread - 1")
        case True
        then have "pc ?s' a = (j, PubWait)" using Pair Compute False by (simp add: step_simps)
        then show ?thesis using old Compute rk [of PubWait] X R il by (simp add: L_def)
      next
        case nl: False
        then have "pc ?s' a = enter_column n start a (j + 1)" using Pair Compute False by (simp add: step_simps)
        then show ?thesis using old Compute nx X R il by simp
      qed
    qed
  next
    case PubWait
    then have "pc ?s' a = (j, Publish)" using Pair nb by (simp add: step_simps blocked_def)
    then show ?thesis using old PubWait rk [of Publish] X R by (simp add: L_def)
  next
    case Publish
    then have "pc ?s' a = enter_column n start a (j + 1)" using Pair by (simp add: step_simps)
    then show ?thesis using old Publish nx X R by (simp add: L_def)
  next
    case Done
    then show ?thesis using nd by simp
  qed
qed

lemma remaining_step:
  assumes ip: "inv_pc n nthread start endv s" and st: "strips m nthread start endv"
    and a: "0 \<le> a" "a < nthread" and nb: "\<not> blocked s a"
  shows "remaining n nthread start endv (thread_step m n nthread start endv a s)
         < remaining n nthread start endv s"
proof -
  let ?s' = "thread_step m n nthread start endv a s"
  let ?f = "\<lambda>s w. nat (rank n start endv w (pc s w))"
  have r: "0 \<le> rows start endv a"
    using strips_bounds [OF st a] lo_le [of start a endv] by (simp add: rows_def)
  have ain: "a \<in> {0..<nthread}" using a by simp
  have fin: "finite {0..<nthread}" by simp
  have same: "sum (?f ?s') ({0..<nthread} - {a}) = sum (?f s) ({0..<nthread} - {a})"
    by (rule sum.cong) (simp_all add: thread_step_pc_other)
  have less: "?f ?s' a < ?f s a"
    using rank_step [OF inv_pcD [OF ip a] r nb, of m] by simp
  have "remaining n nthread start endv ?s' = ?f ?s' a + sum (?f ?s') ({0..<nthread} - {a})"
    unfolding remaining_def by (rule sum.remove [OF fin ain])
  also have "\<dots> < ?f s a + sum (?f s) ({0..<nthread} - {a})" using same less by simp
  also have "\<dots> = remaining n nthread start endv s"
    unfolding remaining_def by (rule sum.remove [OF fin ain, symmetric])
  finally show ?thesis .
qed

lemma completes:
  assumes st: "strips m nthread start endv"
  shows "inv_pc n nthread start endv s \<Longrightarrow> inv_flag nthread s \<Longrightarrow>
         \<exists>sched. all_done nthread (run_schedule m n nthread start endv sched s)"
proof (induction "remaining n nthread start endv s" arbitrary: s rule: less_induct)
  case less
  show ?case
  proof (cases "all_done nthread s")
    case True
    then have "all_done nthread (run_schedule m n nthread start endv [] s)"
      by (simp add: run_schedule_def)
    then show ?thesis ..
  next
    case False
    from progress [OF less.prems False] obtain a where
      a: "0 \<le> a" "a < nthread" "\<not> blocked s a" by (auto simp: can_move_def)
    let ?s' = "sched_step m n nthread start endv a s"
    have e: "?s' = thread_step m n nthread start endv a s" using a by (simp add: sched_step_in)
    have "remaining n nthread start endv ?s' < remaining n nthread start endv s"
      unfolding e by (rule remaining_step [OF less.prems(1) st a])
    from less.hyps [OF this inv_pc_step [OF less.prems(1) st] inv_flag_step [OF less.prems(2,1)]]
    obtain sched where "all_done nthread (run_schedule m n nthread start endv sched ?s')" ..
    then have "all_done nthread (run_schedule m n nthread start endv (a # sched) s)"
      by (simp add: run_schedule_def)
    then show ?thesis ..
  qed
qed

section \<open>Properties of the grid\<close>

lemma partition_strips:
  assumes W: "1 \<le> W" "W \<le> m"
  shows "strips m W (fst (partition m W junk)) (snd (partition m W junk))"
proof -
  note p = partition_props [OF W prod.collapse [symmetric], where junk = junk]
  show ?thesis
    unfolding strips_def
  proof (intro conjI allI impI)
    fix i assume "0 \<le> i \<and> i < m"
    then show "\<exists>w. 0 \<le> w \<and> w < W \<and> fst (partition m W junk) w \<le> i \<and> i \<le> snd (partition m W junk) w"
      using p(6) [of i] by blast
  qed (use W p(1-5) in simp_all)
qed

lemma grid_after_cell:
  assumes "0 \<le> i" "i < m" "0 \<le> j" "j < n"
  shows "grid_after m n t (ARRAY m i j) = cell_after m n t i j"
  using assms ARRAY_encode [of i m j] by (simp add: grid_after_def)

lemma grid_after_outside: "\<not> (0 \<le> k div m \<and> k div m < n) \<Longrightarrow> grid_after m n t k = 0"
  unfolding grid_after_def by (rule if_not_P)

lemma swept_outside: "\<not> (0 \<le> k div m \<and> k div m < n) \<Longrightarrow> swept m n g k = g k"
  unfolding swept_def by (rule if_not_P) linarith

lemma seeded_grid_after: "1 \<le> m \<Longrightarrow> 1 \<le> n \<Longrightarrow> seeded m n (grid_after m n t)"
  unfolding seeded_def by (auto simp: grid_after_cell cell_after_def)

lemma ARRAY_0: "ARRAY m 0 0 = 0"
  by (simp add: ARRAY_def)

lemma grid_after_step:
  assumes m: "1 \<le> m" and n: "1 \<le> n"
  shows "feedback m n (swept m n (grid_after m n t)) = grid_after m n (Suc t)"
proof
  fix k
  have m0: "0 < m" using m by simp
  let ?g = "grid_after m n t"
  let ?c = "origin_after m n t"
  define i j where "i = k mod m" and "j = k div m"
  have k: "k = ARRAY m i j" and i: "0 \<le> i" "i < m"
    using ARRAY_decode [OF m0, of k] by (simp_all add: i_def j_def)
  have g0: "?g 0 = ?c"
    using grid_after_cell [of 0 m 0 n t] m n by (simp add: ARRAY_0 cell_after_def)
  have sw: "swept m n ?g (ARRAY m i' j') =
      (if 1 \<le> i' \<and> 1 \<le> j' then i' + j' - ?c else cell_after m n t i' j')"
    if "0 \<le> i'" "i' < m" "0 \<le> j'" "j' < n" for i' j'
    using that ARRAY_encode [of i' m j'] grid_after_cell [OF that, of t]
    by (simp add: swept_def g0)
  have corner: "swept m n ?g (ARRAY m (m - 1) (n - 1)) = cell_value ?c (m - 1) (n - 1)"
    using sw [of "m - 1" "n - 1"] m n by (auto simp: cell_after_def cell_value_def)
  have z: "k = 0 \<longleftrightarrow> i = 0 \<and> j = 0"
    using ARRAY_inj [of m i j 0 0] i m0 k by (auto simp: ARRAY_0)
  show "feedback m n (swept m n ?g) k = grid_after m n (Suc t) k"
  proof (cases "0 \<le> j \<and> j < n")
    case True
    then have r: "grid_after m n (Suc t) k = cell_after m n (Suc t) i j"
      unfolding k using i by (simp add: grid_after_cell)
    show ?thesis
    proof (cases "k = 0")
      case True
      then show ?thesis using corner r z by (simp add: feedback_def ARRAY_0 cell_after_def)
    next
      case False
      then have "feedback m n (swept m n ?g) k = swept m n ?g (ARRAY m i j)"
        using k by (simp add: feedback_def ARRAY_0)
      also have "\<dots> = cell_after m n (Suc t) i j"
        using sw [of i j] i True False z by (auto simp: cell_after_def)
      finally show ?thesis using r by simp
    qed
  next
    case False
    then have "k \<noteq> 0" using z n by auto
    then have "feedback m n (swept m n ?g) k = swept m n ?g k" by (simp add: feedback_def ARRAY_0)
    also have "\<dots> = 0"
      using False swept_outside [of k m n ?g] grid_after_outside [of k m n t] by (simp add: j_def)
    finally show ?thesis using False grid_after_outside [of k m n "Suc t"] by (simp add: j_def)
  qed
qed

lemma apply_writes_append: "apply_writes (xs @ ys) g = apply_writes ys (apply_writes xs g)"
  by (simp add: apply_writes_def)

lemma apply_writes_Cons: "apply_writes (x # xs) g = apply_writes xs (store x g)"
  by (simp add: apply_writes_def)

lemma apply_writes_Nil: "apply_writes [] g = g"
  by (simp add: apply_writes_def)

text \<open>Stores of one value.\<close>

lemma apply_writes_const:
  "\<forall>p \<in> set ws. snd p = c \<Longrightarrow>
     apply_writes ws g k = (if k \<in> fst ` set ws then c else g k)"
proof (induction ws arbitrary: g)
  case Nil
  then show ?case by (simp add: apply_writes_Nil)
next
  case (Cons p ws)
  then show ?case by (auto simp: apply_writes_Cons store_def)
qed

text \<open>Stores whose value is a function of the index.\<close>

lemma apply_writes_fun:
  "\<forall>p \<in> set ws. snd p = v (fst p) \<Longrightarrow>
     apply_writes ws g k = (if k \<in> fst ` set ws then v k else g k)"
proof (induction ws arbitrary: g)
  case Nil
  then show ?case by (simp add: apply_writes_Nil)
next
  case (Cons p ws)
  then show ?case by (auto simp: apply_writes_Cons store_def)
qed

lemma clear_keys:
  assumes "0 \<le> start w" "endv w < m"
  shows "k \<in> fst ` set (clear_writes m n start endv w) \<longleftrightarrow> in_strip m n start endv w k"
proof
  assume "k \<in> fst ` set (clear_writes m n start endv w)"
  then obtain i j where "k = ARRAY m i j" "start w \<le> i" "i \<le> endv w" "0 \<le> j" "j \<le> n - 1"
    by (auto simp: clear_writes_def)
  then show "in_strip m n start endv w k"
    using ARRAY_encode [of i m j] assms by (simp add: in_strip_def)
next
  assume a: "in_strip m n start endv w k"
  have m0: "0 < m" using a assms by (simp add: in_strip_def)
  have "(k, 0) \<in> set (clear_writes m n start endv w)"
    unfolding clear_writes_def using a ARRAY_decode(1) [OF m0, of k]
    by (auto simp: in_strip_def intro!: bexI [of _ "k div m"])
  then show "k \<in> fst ` set (clear_writes m n start endv w)" by force
qed

lemma row_seed_keys:
  assumes "start 0 = 0" "0 < m"
  shows "k \<in> fst ` set (row_seed_writes m n start w) \<longleftrightarrow> w = 0 \<and> k mod m = 0 \<and> 0 \<le> k div m \<and> k div m < n"
proof
  assume "k \<in> fst ` set (row_seed_writes m n start w)"
  then obtain j where "w = 0" "k = ARRAY m 0 j" "0 \<le> j" "j \<le> n - 1"
    using assms by (auto simp: row_seed_writes_def split: if_splits)
  then show "w = 0 \<and> k mod m = 0 \<and> 0 \<le> k div m \<and> k div m < n"
    using ARRAY_encode [of 0 m j] assms by simp
next
  assume a: "w = 0 \<and> k mod m = 0 \<and> 0 \<le> k div m \<and> k div m < n"
  then have "(k, k div m) \<in> set (row_seed_writes m n start w)"
    using ARRAY_decode(1) [OF assms(2), of k] assms by (auto simp: row_seed_writes_def)
  then show "k \<in> fst ` set (row_seed_writes m n start w)" by force
qed

lemma col_seed_keys:
  assumes "0 \<le> start w" "endv w < m"
  shows "k \<in> fst ` set (col_seed_writes m start endv w) \<longleftrightarrow> start w \<le> k mod m \<and> k mod m \<le> endv w \<and> k div m = 0"
proof
  assume "k \<in> fst ` set (col_seed_writes m start endv w)"
  then obtain i where "k = ARRAY m i 0" "start w \<le> i" "i \<le> endv w"
    by (auto simp: col_seed_writes_def)
  then show "start w \<le> k mod m \<and> k mod m \<le> endv w \<and> k div m = 0"
    using ARRAY_encode [of i m 0] assms by simp
next
  assume a: "start w \<le> k mod m \<and> k mod m \<le> endv w \<and> k div m = 0"
  have m0: "0 < m" using a assms by simp
  have "(k, k mod m) \<in> set (col_seed_writes m start endv w)"
    using a ARRAY_decode(1) [OF m0, of k] by (auto simp: col_seed_writes_def)
  then show "k \<in> fst ` set (col_seed_writes m start endv w)" by force
qed

lemma strips_start_pos:
  assumes st: "strips m nthread start endv" and w: "0 < w" "w < nthread"
  shows "1 \<le> start w"
  using strips_next [OF st w] strips_bounds [OF st, of "w - 1"] w by simp

lemma strips_m_pos:
  assumes st: "strips m nthread start endv"
  shows "0 < m"
proof -
  have "1 \<le> nthread" using st by (simp add: strips_def)
  then show ?thesis using strips_bounds [OF st, of 0] by simp
qed

lemma init_thread:
  assumes st: "strips m nthread start endv" and w: "0 \<le> w" "w < nthread" and n: "1 \<le> n"
  shows "apply_writes (init_writes m n start endv w) g k =
         (if in_strip m n start endv w k then cell_after m n 0 (k mod m) (k div m) else g k)"
proof -
  note b = strips_bounds [OF st w]
  have m0: "0 < m" using b by simp
  have s0: "start 0 = 0" using st by (simp add: strips_def)
  have em: "endv w < m" using b by simp
  define g1 where "g1 = apply_writes (clear_writes m n start endv w) g"
  define g2 where "g2 = apply_writes (row_seed_writes m n start w) g1"
  define g3 where "g3 = apply_writes (col_seed_writes m start endv w) g2"
  have e: "apply_writes (init_writes m n start endv w) g = g3"
    by (simp add: init_writes_def seed_writes_def apply_writes_append g1_def g2_def g3_def)
  have ck: "(k \<in> fst ` set (clear_writes m n start endv w)) = in_strip m n start endv w k"
    by (rule clear_keys) (use b em in simp_all)
  have rk: "(k \<in> fst ` set (row_seed_writes m n start w)) = (w = 0 \<and> k mod m = 0 \<and> 0 \<le> k div m \<and> k div m < n)"
    by (rule row_seed_keys) (use s0 m0 in simp_all)
  have sk: "(k \<in> fst ` set (col_seed_writes m start endv w)) = (start w \<le> k mod m \<and> k mod m \<le> endv w \<and> k div m = 0)"
    by (rule col_seed_keys) (use b em in simp_all)
  have 1: "g1 k = (if in_strip m n start endv w k then 0 else g k)"
    unfolding g1_def ck [symmetric]
    by (rule apply_writes_const) (auto simp: clear_writes_def)
  have 2: "g2 k = (if w = 0 \<and> k mod m = 0 \<and> 0 \<le> k div m \<and> k div m < n then k div m else g1 k)"
    unfolding g2_def rk [symmetric]
    by (rule apply_writes_fun) (use ARRAY_encode [of 0 m] m0 s0 in \<open>auto simp: row_seed_writes_def\<close>)
  have 3: "g3 k = (if start w \<le> k mod m \<and> k mod m \<le> endv w \<and> k div m = 0 then k mod m else g2 k)"
    unfolding g3_def sk [symmetric]
    by (rule apply_writes_fun) (use ARRAY_encode [of _ m 0] b in \<open>auto simp: col_seed_writes_def\<close>)
  have w0: "w = 0" if "in_strip m n start endv w k" "k mod m = 0"
  proof (rule ccontr)
    assume "w \<noteq> 0"
    then have "1 \<le> start w" using strips_start_pos [OF st, of w] w by simp
    then show False using that by (simp add: in_strip_def)
  qed
  show ?thesis
  proof (cases "in_strip m n start endv w k")
    case True
    then have r: "start w \<le> k mod m" "k mod m \<le> endv w" "0 \<le> k div m" "k div m < n"
      by (simp_all add: in_strip_def)
    show ?thesis
    proof (cases "k div m = 0")
      case True
      then show ?thesis using e 3 r \<open>in_strip m n start endv w k\<close> by (simp add: cell_after_def)
    next
      case j: False
      show ?thesis
      proof (cases "k mod m = 0")
        case True
        then show ?thesis using e 3 2 r j w0 [OF \<open>in_strip m n start endv w k\<close>]
            \<open>in_strip m n start endv w k\<close> by (simp add: cell_after_def)
      next
        case False
        then show ?thesis using e 3 2 1 r j \<open>in_strip m n start endv w k\<close> by (simp add: cell_after_def)
      qed
    qed
  next
    case False
    have a: "\<not> (start w \<le> k mod m \<and> k mod m \<le> endv w \<and> k div m = 0)"
      using False n by (auto simp: in_strip_def)
    have c: "\<not> (w = 0 \<and> k mod m = 0 \<and> 0 \<le> k div m \<and> k div m < n)"
      using False s0 b by (auto simp: in_strip_def)
    have "g3 k = g2 k" unfolding 3 using a by (rule if_not_P)
    also have "\<dots> = g1 k" unfolding 2 using c by (rule if_not_P)
    also have "\<dots> = g k" unfolding 1 using False by (rule if_not_P)
    finally show ?thesis using e False by simp
  qed
qed

lemma init_threads:
  assumes st: "strips m nthread start endv" and n: "1 \<le> n"
  shows "\<forall>w \<in> set ws. 0 \<le> w \<and> w < nthread \<Longrightarrow>
         apply_writes (concat (map (init_writes m n start endv) ws)) g k =
         (if \<exists>w \<in> set ws. in_strip m n start endv w k then cell_after m n 0 (k mod m) (k div m) else g k)"
proof (induction ws arbitrary: g)
  case Nil
  then show ?case by (simp add: apply_writes_Nil)
next
  case (Cons w ws)
  have w: "0 \<le> w" "w < nthread" using Cons.prems by simp_all
  have "apply_writes (concat (map (init_writes m n start endv) (w # ws))) g k =
        apply_writes (concat (map (init_writes m n start endv) ws))
          (apply_writes (init_writes m n start endv w) g) k"
    by (simp add: apply_writes_append)
  also have "\<dots> = (if \<exists>w \<in> set ws. in_strip m n start endv w k then cell_after m n 0 (k mod m) (k div m)
                    else apply_writes (init_writes m n start endv w) g k)"
    using Cons.prems by (intro Cons.IH) simp
  finally show ?case using init_thread [OF st w n, of g k] by auto
qed

lemma init_grid_closed:
  assumes st: "strips m nthread start endv" and n: "1 \<le> n"
  shows "init_grid m n nthread start endv (\<lambda>_. 0) = grid_after m n 0"
proof
  fix k
  have m0: "0 < m" by (rule strips_m_pos [OF st])
  have cov: "(\<exists>w \<in> set [0..nthread - 1]. in_strip m n start endv w k) \<longleftrightarrow> 0 \<le> k div m \<and> k div m < n"
  proof
    assume "\<exists>w \<in> set [0..nthread - 1]. in_strip m n start endv w k"
    then show "0 \<le> k div m \<and> k div m < n" by (auto simp: in_strip_def)
  next
    assume r: "0 \<le> k div m \<and> k div m < n"
    from st have "\<forall>i. 0 \<le> i \<and> i < m \<longrightarrow> (\<exists>w. 0 \<le> w \<and> w < nthread \<and> start w \<le> i \<and> i \<le> endv w)"
      by (simp add: strips_def)
    from this [rule_format, of "k mod m"] m0 obtain w where
      "0 \<le> w" "w < nthread" "start w \<le> k mod m" "k mod m \<le> endv w" by auto
    then show "\<exists>w \<in> set [0..nthread - 1]. in_strip m n start endv w k"
      using r by (intro bexI [of _ w]) (simp_all add: in_strip_def)
  qed
  have "init_grid m n nthread start endv (\<lambda>_. 0) k =
        (if \<exists>w \<in> set [0..nthread - 1]. in_strip m n start endv w k
         then cell_after m n 0 (k mod m) (k div m) else 0)"
    unfolding init_grid_def by (rule init_threads [OF st n]) simp
  then show "init_grid m n nthread start endv (\<lambda>_. 0) k = grid_after m n 0 k"
    unfolding cov by (simp add: grid_after_def)
qed

section \<open>Properties of the iteration loop\<close>

lemma iteration_loop_result:
  assumes st: "strips m nthread start endv" and n: "1 \<le> n"
  shows "iteration_loop m n nthread start endv iterations iter env (g, f, t) = Some r \<Longrightarrow>
         0 \<le> iter \<Longrightarrow> iter \<le> iterations \<Longrightarrow> g = grid_after m n (nat iter) \<Longrightarrow>
         fst r = grid_after m n (nat iterations) \<and> snd (snd r) = timing_loop iterations iter (map snd env) t"
proof (induction env arbitrary: iter g f t)
  case Nil
  then show ?case by (auto split: if_splits)
next
  case (Cons e env)
  have m: "1 \<le> m" using strips_m_pos [OF st] by simp
  show ?case
  proof (cases "iter < iterations")
    case False
    then show ?thesis using Cons.prems by auto
  next
    case True
    from Cons.prems(1) True obtain g' f' where
      sw: "sweep m n nthread start endv (fst e) (g, f) = Some (g', f')"
      and rest: "iteration_loop m n nthread start endv iterations (iter + 1) env
          (feedback m n g', f', record_time iterations iter (snd e) t) = Some r"
      by (auto split: option.splits)
    have sd: "seeded m n g" unfolding Cons.prems(4) by (rule seeded_grid_after [OF m n])
    have "g' = swept m n g" by (rule sweep_result [OF st sd m n sw])
    then have g: "feedback m n g' = grid_after m n (nat (iter + 1))"
      using grid_after_step [OF m n, of "nat iter"] Cons.prems(2,4) by (simp add: nat_add_distrib)
    from Cons.IH [OF rest _ _ g] True Cons.prems(2) show ?thesis by simp
  qed
qed

lemma pipeline_result:
  assumes st: "strips m nthread start endv" and n: "1 \<le> n" and K: "0 \<le> iterations"
    and p: "pipeline m n nthread start endv iterations fj env = Some r"
  shows "fst r = grid_after m n (nat iterations)"
    "snd (snd r) = timing_loop iterations 0 (map snd env) timing_init"
  using iteration_loop_result [OF st n p [unfolded pipeline_def] _ K] init_grid_closed [OF st n]
  by simp_all

lemma sweep_completes:
  assumes st: "strips m nthread start endv" and n: "1 \<le> n"
  shows "\<exists>sched. sweep m n nthread start endv sched gf \<noteq> None"
proof -
  have i: "inv m n nthread start endv (fst gf) (sweep_start n nthread start (fst gf) (snd gf))"
    by (rule inv_start [OF st n])
  then have "inv_pc n nthread start endv (sweep_start n nthread start (fst gf) (snd gf))"
    "inv_flag nthread (sweep_start n nthread start (fst gf) (snd gf))" by (simp_all add: inv_def)
  from completes [OF st this] obtain sched where
    "all_done nthread (run_schedule m n nthread start endv sched (sweep_start n nthread start (fst gf) (snd gf)))" ..
  then have "sweep m n nthread start endv sched gf \<noteq> None" by (simp add: sweep_def Let_def)
  then show ?thesis ..
qed

lemma iteration_loop_completes:
  assumes st: "strips m nthread start endv" and n: "1 \<le> n"
  shows "\<exists>scheds. length scheds = length ts \<and>
           (length ts \<ge> nat (iterations - iter) \<longrightarrow>
            iteration_loop m n nthread start endv iterations iter (zip scheds ts) s \<noteq> None)"
proof (induction ts arbitrary: iter s)
  case Nil
  have "iteration_loop m n nthread start endv iterations iter (zip [] []) s \<noteq> None"
    if "length ([] :: real list) \<ge> nat (iterations - iter)"
    using that by simp
  then show ?case by (intro exI [of _ "[]"]) simp
next
  case (Cons x ts)
  show ?case
  proof (cases "iter < iterations")
    case False
    from Cons.IH [of iter s] obtain scheds :: "int list list" where l: "length scheds = length ts" by blast
    show ?thesis using False l by (intro exI [of _ "[] # scheds"]) simp
  next
    case True
    from sweep_completes [OF st n, of "(fst s, fst (snd s))"] obtain sched gf where
      sw: "sweep m n nthread start endv sched (fst s, fst (snd s)) = Some gf" by auto
    let ?s' = "(feedback m n (fst gf), snd gf, record_time iterations iter x (snd (snd s)))"
    from Cons.IH [of "iter + 1" ?s'] obtain scheds where
      l: "length scheds = length ts"
      and c: "length ts \<ge> nat (iterations - (iter + 1)) \<longrightarrow>
          iteration_loop m n nthread start endv iterations (iter + 1) (zip scheds ts) ?s' \<noteq> None"
      by blast
    show ?thesis
    proof (intro exI [of _ "sched # scheds"] conjI impI)
      show "length (sched # scheds) = length (x # ts)" using l by simp
      assume "nat (iterations - iter) \<le> length (x # ts)"
      then have "nat (iterations - (iter + 1)) \<le> length ts" using True by simp
      with c show "iteration_loop m n nthread start endv iterations iter (zip (sched # scheds) (x # ts)) s \<noteq> None"
        using True sw by simp
    qed
  qed
qed

lemma pipeline_completes:
  assumes st: "strips m nthread start endv" and n: "1 \<le> n" and l: "int (length ts) = iterations"
  shows "\<exists>scheds. length scheds = length ts \<and>
           pipeline m n nthread start endv iterations fj (zip scheds ts) \<noteq> None"
proof -
  from iteration_loop_completes [OF st n, of ts iterations 0
      "(init_grid m n nthread start endv (\<lambda>_. 0), fj, timing_init)"]
  obtain scheds where "length scheds = length ts"
    "length ts \<ge> nat (iterations - 0) \<longrightarrow>
       iteration_loop m n nthread start endv iterations 0 (zip scheds ts)
         (init_grid m n nthread start endv (\<lambda>_. 0), fj, timing_init) \<noteq> None" by blast
  then show ?thesis using l by (intro exI [of _ scheds]) (auto simp: pipeline_def)
qed

section \<open>Properties of the command line checks\<close>





lemma check_args_accepts:
  assumes "check_args b args = Inr (W, K, m, n)"
  shows "args = [W, K, m, n]" "1 \<le> W" "W \<le> MAX_THREADS b" "1 \<le> K" "1 \<le> m" "1 \<le> n"
    "c_div (c_mul m n) n = m" "c_mul m n \<le> MEMWORDS b" "W \<le> m"
proof -
  from assms have l: "length args = 4" by (auto simp: check_args_def split: if_splits)
  then obtain a0 a1 a2 a3 where a: "args = [a0, a1, a2, a3]"
    by (auto simp: length_Suc_conv numeral_eq_Suc)
  from assms show "args = [W, K, m, n]" "1 \<le> W" "W \<le> MAX_THREADS b" "1 \<le> K" "1 \<le> m" "1 \<le> n"
    "c_div (c_mul m n) n = m" "c_mul m n \<le> MEMWORDS b" "W \<le> m"
    unfolding a by (auto simp: check_args_def Let_def split: if_splits)
qed





section \<open>Properties of timing and report\<close>

lemma record_time_accumulate:
  "record_time K iter x t = (if iter > 0 \<or> K = 1 then accumulate x t else t)"
  by (simp add: record_time_def accumulate_def)

lemma timing_loop_later:
  "1 \<le> iter \<Longrightarrow> timing_loop K iter xs t = fold accumulate (take (nat (K - iter)) xs) t"
proof (induction xs arbitrary: iter t)
  case Nil
  then show ?case by simp
next
  case (Cons x xs)
  show ?case
  proof (cases "iter < K")
    case True
    then have "nat (K - iter) = Suc (nat (K - (iter + 1)))" by simp
    then show ?thesis using Cons.IH [of "iter + 1"] Cons.prems True
      by (simp add: record_time_accumulate)
  next
    case False
    then show ?thesis by simp
  qed
qed

lemma timing_loop_kept:
  "timing_loop K 0 xs t = fold accumulate (kept_samples K xs) t"
proof (cases xs)
  case Nil
  then show ?thesis by (simp add: kept_samples_def)
next
  case (Cons x xs')
  show ?thesis
  proof (cases "0 < K")
    case False
    then show ?thesis using Cons by (simp add: kept_samples_def)
  next
    case True
    then have k: "nat K = Suc (nat (K - 1))" by simp
    show ?thesis
      using True Cons timing_loop_later [of 1 K xs'] k
      by (simp add: kept_samples_def record_time_accumulate)
  qed
qed

lemma accumulate_fields:
  "avgtime (accumulate x t) = avgtime t + x"
  "mintime (accumulate x t) = min (mintime t) x"
  "maxtime (accumulate x t) = max (maxtime t) x"
  by (simp_all add: accumulate_def MIN_macro_def MAX_macro_def min_def max_def)

lemma fold_accumulate_avg: "avgtime (fold accumulate xs t) = avgtime t + sum_list xs"
  by (induction xs arbitrary: t) (simp_all add: accumulate_fields)

lemma fold_accumulate_min: "mintime (fold accumulate xs t) = Min (insert (mintime t) (set xs))"
proof (induction xs arbitrary: t)
  case Nil
  then show ?case by simp
next
  case (Cons x xs)
  have "Min (insert (min (mintime t) x) (set xs)) = Min (insert (mintime t) (insert x (set xs)))"
    by (cases "set xs = {}") (simp_all add: min.assoc)
  then show ?case by (simp add: Cons.IH accumulate_fields)
qed

lemma fold_accumulate_max: "maxtime (fold accumulate xs t) = Max (insert (maxtime t) (set xs))"
proof (induction xs arbitrary: t)
  case Nil
  then show ?case by simp
next
  case (Cons x xs)
  have "Max (insert (max (maxtime t) x) (set xs)) = Max (insert (maxtime t) (insert x (set xs)))"
    by (cases "set xs = {}") (simp_all add: max.assoc)
  then show ?case by (simp add: Cons.IH accumulate_fields)
qed

lemma report_lines:
  "lines_of (report b W K m n t) =
     (if VERBOSE b
      then [map Ch ''Solution validates; verification value = '' @ [NumD (Finite (real_of_int (c_mul K (n + m - 2))))],
            map Ch ''Point-to-point synchronizations/s: ''
              @ [NumD (ddiv (real_of_int ((n - 1) * (W - 1))) (mintime t))]]
      else [map Ch ''Solution validates''])
     @ [final_line (ddiv (1 / 1000000 * 2 * real_of_int ((m - 1) * (n - 1))) (mintime t))
          (Finite (avgtime t / real_of_int (MAX_macro (K - 1) 1)))
          (Finite (mintime t)) (Finite (maxtime t))]"
  by (simp add: report_def lines_of_def final_line_def newline_def Let_def)

lemma iteration_loop_timing:
  "iteration_loop m n nthread start endv K iter env s = Some r \<Longrightarrow>
     snd (snd r) = timing_loop K iter (map snd env) (snd (snd s))"
proof (induction env arbitrary: iter s)
  case Nil
  then show ?case by (auto split: if_splits)
next
  case (Cons e env)
  show ?case
  proof (cases "iter < K")
    case False
    then show ?thesis using Cons.prems by auto
  next
    case True
    from Cons.prems True obtain gf where
      rest: "iteration_loop m n nthread start endv K (iter + 1) env
          (feedback m n (fst gf), snd gf, record_time K iter (snd e) (snd (snd s))) = Some r"
      by (auto split: option.splits)
    from Cons.IH [OF rest] True show ?thesis by simp
  qed
qed

lemma pipeline_timing:
  assumes "pipeline m n nthread start endv K fj env = Some st"
  shows "avgtime (snd (snd st)) = sum_list (kept_samples K (map snd env))"
    "mintime (snd (snd st)) = Min (insert (366 * 24 * 3600) (set (kept_samples K (map snd env))))"
    "maxtime (snd (snd st)) = Max (insert 0 (set (kept_samples K (map snd env))))"
proof -
  have "snd (snd st) = fold accumulate (kept_samples K (map snd env)) timing_init"
    using iteration_loop_timing [OF assms [unfolded pipeline_def]] by (simp add: timing_loop_kept)
  then show "avgtime (snd (snd st)) = sum_list (kept_samples K (map snd env))"
    "mintime (snd (snd st)) = Min (insert (366 * 24 * 3600) (set (kept_samples K (map snd env))))"
    "maxtime (snd (snd st)) = Max (insert 0 (set (kept_samples K (map snd env))))"
    by (simp_all add: fold_accumulate_avg fold_accumulate_min fold_accumulate_max timing_init_def)
qed


text \<open>
  Claim C7. In every run of the parallel region that reaches its end, the samples the master
  accumulates are those of the iterations after iteration 0, or the one sample there is when
  exactly one iteration was requested (\<open>kept_samples\<close>); \<^verbatim>\<open>avgtime\<close> is their sum,
  \<^verbatim>\<open>mintime\<close> their minimum (starting from one leap year) and \<^verbatim>\<open>maxtime\<close> their maximum
  (starting from 0); and the average in the final line of the report is that sum divided by
  \<open>max (iterations - 1) 1\<close>.
\<close>

theorem timing_harness:
  assumes "pipeline m n nthread start endv K fj env = Some st"
  shows "let kept = kept_samples K (map snd env); t = snd (snd st) in
           kept = (if K = 1 then take 1 (map snd env) else drop 1 (take (nat K) (map snd env)))
           \<and> avgtime t = sum_list kept
           \<and> mintime t = Min (insert (366 * 24 * 3600) (set kept))
           \<and> maxtime t = Max (insert 0 (set kept))
           \<and> last (lines_of (report b nthread K m n t)) =
               final_line (ddiv (1 / 1000000 * 2 * real_of_int ((m - 1) * (n - 1))) (mintime t))
                 (Finite (sum_list kept / real_of_int (max (K - 1) 1)))
                 (Finite (mintime t)) (Finite (maxtime t))"
proof -
  have mx: "MAX_macro (K - 1) 1 = max (K - 1) 1" by (simp add: MAX_macro_def max_def)
  show ?thesis
    unfolding Let_def report_lines pipeline_timing [OF assms] mx
    by (simp add: kept_samples_def)
qed



lemma origin_after_degenerate:
  "(m = 1 \<and> 2 \<le> n) \<or> (n = 1 \<and> 2 \<le> m) \<Longrightarrow> origin_after m n (Suc t) = - (m + n - 2)"
  by (auto simp: cell_value_def)



text \<open>The unfoldings that evaluate a run on a concrete input.\<close>

lemmas eval_simps = pipeline_def sweep_def sweep_start_def run_schedule_def sched_step_def
  thread_step_def all_done_def enter_column_def MAX_macro_def MIN_macro_def partition_def
  partition_loop.simps c_div_def c_rem_def Let_def init_grid_def init_writes_def clear_writes_def
  seed_writes_def row_seed_writes_def col_seed_writes_def apply_writes_def store_def ARRAY_def
  stencil_def feedback_def reset_flags_def record_time_def timing_init_def upto.simps



lemma accepted_completes:
  assumes c: "check_args b args = Inr (W, K, m, n)" and l: "int (length ts) = K"
  shows "\<exists>scheds. length scheds = length ts \<and>
     pipeline m n W (fst (partition m W junk)) (snd (partition m W junk)) K fj (zip scheds ts) \<noteq> None"
proof -
  note a = check_args_accepts [OF c]
  have st: "strips m W (fst (partition m W junk)) (snd (partition m W junk))"
    by (rule partition_strips [OF a(2,9)])
  show ?thesis by (rule pipeline_completes [OF st a(6) l])
qed





theorem timing_harness_witness:
  "\<exists>st. pipeline 2 2 1 (fst (partition 2 1 (\<lambda>_. 0, \<lambda>_. 0))) (snd (partition 2 1 (\<lambda>_. 0, \<lambda>_. 0))) 3
          (\<lambda>_. 0) [([0, 0], 5), ([0, 0], 2), ([0, 0], 4)] = Some st
     \<and> avgtime (snd (snd st)) = 6 \<and> mintime (snd (snd st)) = 2 \<and> maxtime (snd (snd st)) = 4
     \<and> last (lines_of (report (default_build 512) 1 3 2 2 (snd (snd st)))) =
         final_line (Finite (1 / 1000000)) (Finite 3) (Finite 2) (Finite 4)"
proof -
  have "pipeline 2 2 1 (fst (partition 2 1 (\<lambda>_. 0, \<lambda>_. 0))) (snd (partition 2 1 (\<lambda>_. 0, \<lambda>_. 0))) 3
          (\<lambda>_. 0) [([0, 0], 5), ([0, 0], 2), ([0, 0], 4)] \<noteq> None"
    by (simp add: eval_simps)
  then obtain st where st: "pipeline 2 2 1 (fst (partition 2 1 (\<lambda>_. 0, \<lambda>_. 0)))
      (snd (partition 2 1 (\<lambda>_. 0, \<lambda>_. 0))) 3 (\<lambda>_. 0) [([0, 0], 5), ([0, 0], 2), ([0, 0], 4)] = Some st"
    by blast
  from timing_harness [OF st, of "default_build 512"]
  have "avgtime (snd (snd st)) = 6 \<and> mintime (snd (snd st)) = 2 \<and> maxtime (snd (snd st)) = 4
     \<and> last (lines_of (report (default_build 512) 1 3 2 2 (snd (snd st)))) =
         final_line (Finite (1 / 1000000)) (Finite 3) (Finite 2) (Finite 4)"
    by (simp add: Let_def kept_samples_def ddiv_def)
  with st show ?thesis by blast
qed



section \<open>Independence of the number of workers\<close>

lemma any_strips_grid:
  assumes W: "1 \<le> W" "W \<le> m" and n: "1 \<le> n" and K: "0 \<le> K"
    and p: "pipeline m n W (fst (partition m W junk)) (snd (partition m W junk)) K fj env = Some st"
  shows "fst st = grid_after m n (nat K)"
  by (rule pipeline_result(1) [OF partition_strips [OF W] n K p])

lemma any_strips_completes:
  assumes W: "1 \<le> W" "W \<le> m" and n: "1 \<le> n" and K: "0 \<le> K"
  shows "\<exists>env st. pipeline m n W (fst (partition m W junk)) (snd (partition m W junk)) K fj env = Some st"
proof -
  have l: "int (length (replicate (nat K) (0::real))) = K" using K by simp
  from pipeline_completes [OF partition_strips [OF W] n l, of junk fj]
  show ?thesis by blast
qed

text \<open>
  Claim C6. For every grid \<open>m \<ge> 1\<close>, \<open>n \<ge> 1\<close> and every number of iterations, the sweep can
  be carried to its end with one worker and with \<open>m\<close> workers, and whatever the schedules,
  the uninitialised memory and the timer were, a run with one worker and a run with \<open>m\<close>
  workers end with the same array (every cell of it) and hence with the same outcome of the
  verification.
\<close>

theorem strips_transparent:
  assumes "1 \<le> m" "1 \<le> n" "0 \<le> K"
  shows "(\<exists>env st. pipeline m n 1 (fst (partition m 1 j1)) (snd (partition m 1 j1)) K f1 env = Some st)
    \<and> (\<exists>env st. pipeline m n m (fst (partition m m j2)) (snd (partition m m j2)) K f2 env = Some st)
    \<and> (\<forall>env1 env2 st1 st2.
          pipeline m n 1 (fst (partition m 1 j1)) (snd (partition m 1 j1)) K f1 env1 = Some st1
          \<and> pipeline m n m (fst (partition m m j2)) (snd (partition m m j2)) K f2 env2 = Some st2
          \<longrightarrow> fst st1 = fst st2 \<and> verify K m n (fst st1) = verify K m n (fst st2))"
proof (intro conjI allI impI)
  show "\<exists>env st. pipeline m n 1 (fst (partition m 1 j1)) (snd (partition m 1 j1)) K f1 env = Some st"
    by (rule any_strips_completes) (use assms in simp_all)
  show "\<exists>env st. pipeline m n m (fst (partition m m j2)) (snd (partition m m j2)) K f2 env = Some st"
    by (rule any_strips_completes) (use assms in simp_all)
next
  fix env1 env2 st1 st2
  assume r: "pipeline m n 1 (fst (partition m 1 j1)) (snd (partition m 1 j1)) K f1 env1 = Some st1
          \<and> pipeline m n m (fst (partition m m j2)) (snd (partition m m j2)) K f2 env2 = Some st2"
  have 1: "fst st1 = grid_after m n (nat K)"
    by (rule any_strips_grid [OF _ _ assms(2,3) r [THEN conjunct1]]) (use assms in simp_all)
  have 2: "fst st2 = grid_after m n (nat K)"
    by (rule any_strips_grid [OF _ _ assms(2,3) r [THEN conjunct2]]) (use assms in simp_all)
  show "fst st1 = fst st2" "verify K m n (fst st1) = verify K m n (fst st2)"
    by (simp_all add: 1 2)
qed

theorem strips_transparent_witness:
  "\<exists>st1 st2.
     pipeline 2 2 1 (fst (partition 2 1 (\<lambda>_. 0, \<lambda>_. 0))) (snd (partition 2 1 (\<lambda>_. 0, \<lambda>_. 0))) 1 (\<lambda>_. 0)
       [([0, 0], 1)] = Some st1
     \<and> pipeline 2 2 2 (fst (partition 2 2 (\<lambda>_. 7, \<lambda>_. 9))) (snd (partition 2 2 (\<lambda>_. 7, \<lambda>_. 9))) 1 (\<lambda>_. 5)
       [([0, 1, 0, 0, 1, 1, 1, 1], 2)] = Some st2
     \<and> fst st1 = fst st2 \<and> map (fst st1) [0, 1, 2, 3] = [- 2, 1, 1, 2]"
proof -
  have "pipeline 2 2 1 (fst (partition 2 1 (\<lambda>_. 0, \<lambda>_. 0))) (snd (partition 2 1 (\<lambda>_. 0, \<lambda>_. 0))) 1 (\<lambda>_. 0)
       [([0, 0], 1)] \<noteq> None"
    by (simp add: eval_simps)
  then obtain st1 where 1: "pipeline 2 2 1 (fst (partition 2 1 (\<lambda>_. 0, \<lambda>_. 0)))
       (snd (partition 2 1 (\<lambda>_. 0, \<lambda>_. 0))) 1 (\<lambda>_. 0) [([0, 0], 1)] = Some st1" by blast
  have "pipeline 2 2 2 (fst (partition 2 2 (\<lambda>_. 7, \<lambda>_. 9))) (snd (partition 2 2 (\<lambda>_. 7, \<lambda>_. 9))) 1 (\<lambda>_. 5)
       [([0, 1, 0, 0, 1, 1, 1, 1], 2)] \<noteq> None"
    by (simp add: eval_simps)
  then obtain st2 where 2: "pipeline 2 2 2 (fst (partition 2 2 (\<lambda>_. 7, \<lambda>_. 9)))
       (snd (partition 2 2 (\<lambda>_. 7, \<lambda>_. 9))) 1 (\<lambda>_. 5) [([0, 1, 0, 0, 1, 1, 1, 1], 2)] = Some st2" by blast
  have h: "(1::int) \<le> 2" "(0::int) \<le> 1" by simp_all
  from strips_transparent [OF h(1) h(1) h(2), of "(\<lambda>_. 0, \<lambda>_. 0)" "\<lambda>_. 0" "(\<lambda>_. 7, \<lambda>_. 9)" "\<lambda>_. 5"] 1 2
  have e: "fst st1 = fst st2" by blast
  have v: "map (fst st1) [0, 1, 2, 3] = [- 2, 1, 1, 2]"
    using 1 by (simp add: eval_simps) auto
  show ?thesis
    by (rule exI [of _ st1], rule exI [of _ st2]) (intro conjI 1 2 e v)
qed

section \<open>The boundary of the grid\<close>














end
